theory Spec2Isabelle
  imports Complex_Main "HOL-Library.Log_Nat" "HOL-Library.Sublist"
begin

section \<open>Strings of the program\<close>

text \<open>
  A string of the program is a sequence of UTF-16 code units; \<open>length\<close> counts code
  units, as the \<open>length\<close> property of the source does.  A literal of the source is
  written \<open>js ''...''\<close>.
\<close>

type_synonym jschar = nat
type_synonym jsstring = "jschar list"

definition js :: "string \<Rightarrow> jsstring" where
  "js s = map of_char s"

text \<open>
  The characters that \<open>trim\<close> strips and that \<open>\s\<close> matches: the white space and line
  terminator code units (tab, line feed, vertical tab, form feed, carriage return, space,
  no-break space, U+1680, U+2000 to U+200A, U+2028, U+2029, U+202F, U+205F, U+3000, U+FEFF).
\<close>

definition isWhiteSpace :: "jschar \<Rightarrow> bool" where
  "isWhiteSpace c \<longleftrightarrow>
     c = 9 \<or> c = 10 \<or> c = 11 \<or> c = 12 \<or> c = 13 \<or> c = 32 \<or> c = 160 \<or> c = 5760 \<or>
     (8192 \<le> c \<and> c \<le> 8202) \<or> c = 8232 \<or> c = 8233 \<or> c = 8239 \<or> c = 8287 \<or>
     c = 12288 \<or> c = 65279"

text \<open>The character class \<open>[ \t]\<close>.\<close>

definition isSpaceOrTab :: "jschar \<Rightarrow> bool" where
  "isSpaceOrTab c \<longleftrightarrow> c = 32 \<or> c = 9"

text \<open>\<open>s.trim()\<close>, with its two halves.\<close>

definition trimStart :: "jsstring \<Rightarrow> jsstring" where
  "trimStart s = dropWhile isWhiteSpace s"

definition trimEnd :: "jsstring \<Rightarrow> jsstring" where
  "trimEnd s = rev (dropWhile isWhiteSpace (rev s))"

definition trim :: "jsstring \<Rightarrow> jsstring" where
  "trim s = trimEnd (trimStart s)"

text \<open>\<open>s.endsWith(' ')\<close> and \<open>s.startsWith(' ')\<close>.\<close>

definition endsWithSpace :: "jsstring \<Rightarrow> bool" where
  "endsWithSpace s \<longleftrightarrow> (case rev s of [] \<Rightarrow> False | c # _ \<Rightarrow> c = 32)"

definition startsWithSpace :: "jsstring \<Rightarrow> bool" where
  "startsWithSpace s \<longleftrightarrow> (case s of [] \<Rightarrow> False | c # _ \<Rightarrow> c = 32)"

text \<open>\<open>'' + n\<close> for a page number: its decimal digits.\<close>

fun numberToString :: "nat \<Rightarrow> jsstring" where
  "numberToString n =
     (if n < 10 then [48 + n] else numberToString (n div 10) @ [48 + n mod 10])"

declare numberToString.simps [simp del]

text \<open>\<open>s.split('\n')\<close> and \<open>lines.join('\n')\<close>.\<close>

fun split :: "jsstring \<Rightarrow> jsstring list" where
  "split [] = [[]]"
| "split (c # cs) =
     (if c = 10 then [] # split cs
      else (case split cs of [] \<Rightarrow> [[c]] | l # ls \<Rightarrow> (c # l) # ls))"

fun join :: "jsstring list \<Rightarrow> jsstring" where
  "join [] = []"
| "join [l] = l"
| "join (l # ls) = l @ 10 # join ls"

section \<open>The whitespace normalizer\<close>

text \<open>
  \<open>text.replace(/[ \t]+/g, ' ')\<close>: scanning from the left, every maximal run of spaces
  and tabs becomes one space.
\<close>

function collapseSpaces :: "jsstring \<Rightarrow> jsstring" where
  "collapseSpaces [] = []"
| "collapseSpaces (c # cs) =
     (if isSpaceOrTab c then 32 # collapseSpaces (dropWhile isSpaceOrTab cs)
      else c # collapseSpaces cs)"
  by pat_completeness auto
termination
  by (relation "measure length") (auto simp: less_Suc_eq_le length_dropWhile_le)

text \<open>
  The backtracking matcher of the regular expression \<open>\n\s*\n\s*\n\<close>.  A matcher takes
  the rest of the input and gives the input left after the first match that the engine
  finds, or \<open>None\<close>.  \<open>lit c k\<close> reads the character \<open>c\<close> and goes on with \<open>k\<close>; the greedy
  \<open>star P k\<close> reads as many \<open>P\<close> characters as it can and gives them back one at a time
  while \<open>k\<close> fails.
\<close>

fun lit :: "jschar \<Rightarrow> (jsstring \<Rightarrow> jsstring option) \<Rightarrow> jsstring \<Rightarrow> jsstring option" where
  "lit c k [] = None"
| "lit c k (x # xs) = (if x = c then k xs else None)"

fun star :: "(jschar \<Rightarrow> bool) \<Rightarrow> (jsstring \<Rightarrow> jsstring option) \<Rightarrow> jsstring \<Rightarrow> jsstring option" where
  "star P k [] = k []"
| "star P k (x # xs) =
     (if P x then (case star P k xs of Some r \<Rightarrow> Some r | None \<Rightarrow> k (x # xs))
      else k (x # xs))"

definition matchBreaks :: "jsstring \<Rightarrow> jsstring option" where
  "matchBreaks = lit 10 (star isWhiteSpace (lit 10 (star isWhiteSpace (lit 10 Some))))"

text \<open>
  \<open>text.replace(/\n\s*\n\s*\n/g, '\n\n')\<close>: at each position, from the left, a match is
  replaced by two line breaks and the scan goes on behind it; otherwise the character is
  kept.
\<close>

function replaceBreaks :: "jsstring \<Rightarrow> jsstring" where
  "replaceBreaks [] = []"
| "replaceBreaks (c # cs) =
     (case matchBreaks (c # cs) of
        Some r \<Rightarrow> 10 # 10 # replaceBreaks r
      | None \<Rightarrow> c # replaceBreaks cs)"
  by pat_completeness auto
termination
proof (relation "measure length")
  have star_le: "length r \<le> length s"
    if "star P k s = Some r" and "\<And>t u. k t = Some u \<Longrightarrow> length u \<le> length t"
    for P k and s r :: jsstring
    using that
  proof (induction s)
    case Nil
    then show ?case by fastforce
  next
    case (Cons x xs)
    then show ?case
      by (fastforce split: if_splits option.splits)
  qed
  have lit_less: "length r < length s"
    if "lit c k s = Some r" and "\<And>t u. k t = Some u \<Longrightarrow> length u \<le> length t"
    for c k and s r :: jsstring
    using that by (cases s) (fastforce split: if_splits)+
  have l1: "length u \<le> length t" if "lit 10 Some t = Some u" for t u :: jsstring
    using lit_less [OF that] by fastforce
  have l2: "length u \<le> length t"
    if "star isWhiteSpace (lit 10 Some) t = Some u" for t u
    using star_le [OF that] l1 by blast
  have l3: "length u \<le> length t"
    if "lit 10 (star isWhiteSpace (lit 10 Some)) t = Some u" for t u
    using lit_less [OF that] l2 by fastforce
  have l4: "length u \<le> length t"
    if "star isWhiteSpace (lit 10 (star isWhiteSpace (lit 10 Some))) t = Some u" for t u
    using star_le [OF that] l3 by blast
  show "wf (measure length)" by simp
  show "(r, c # cs) \<in> measure length" if "matchBreaks (c # cs) = Some r" for c cs r
    using lit_less [OF that [unfolded matchBreaks_def]] l4 by fastforce
  show "(cs, c # cs) \<in> measure length" for c :: jschar and cs by simp
qed

text \<open>\<open>text.split('\n').map(line => line.trim()).join('\n')\<close>.\<close>

definition trimLines :: "jsstring \<Rightarrow> jsstring" where
  "trimLines s = join (map trim (split s))"

text \<open>\<open>cleanExtractedText\<close>, lines 838 to 850 of the PDF processor.\<close>

definition cleanExtractedText :: "jsstring \<Rightarrow> jsstring" where
  "cleanExtractedText text0 = trim (trimLines (replaceBreaks (collapseSpaces text0)))"

section \<open>Numbers of the program\<close>

text \<open>
  A number of the program is an IEEE 754 double.  A finite double is modelled by the
  rational that it denotes, and every arithmetic operation of the source gives the exact
  result rounded to 53 significant bits, to nearest and on a tie to the even
  significand: \<open>roundHalfEven\<close> rounds to an integer, \<open>exponent x\<close> is the \<open>e\<close> with
  \<open>2^e \<le> x < 2^(e + 1)\<close> for a positive \<open>x\<close>, and \<open>roundToDouble\<close> rounds to the doubles
  of that binade.  For example \<open>40 + (1 / 3) * 50\<close> comes out as
  7975124340135253 / 2^47, the double printed as 56.666666666666664.

  The range of the exponent is not bounded, and \<open>NaN\<close> and the infinities are not
  values of the model: the numbers that the processor computes with are finite
  coordinates and widths of text items, which it only adds, subtracts and compares
  with 5 and 20 (a sum or difference too large for a double compares as the infinity
  would), and page numbers and page counts, which are integers below \<open>2^53\<close>.
\<close>

definition roundHalfEven :: "rat \<Rightarrow> int" where
  "roundHalfEven r =
     (let f = \<lfloor>r\<rfloor>; d = r - of_int f
      in if d < 1 / 2 then f else if d > 1 / 2 then f + 1 else if even f then f else f + 1)"

definition exponent :: "rat \<Rightarrow> int" where
  "exponent x =
     (case quotient_of x of (a, b) \<Rightarrow>
        let d = bitlen a - bitlen b in if 2 powi d \<le> x then d else d - 1)"

definition roundToDouble :: "rat \<Rightarrow> rat" where
  "roundToDouble x =
     (if x = 0 then 0
      else let u = 2 powi (exponent \<bar>x\<bar> - 52)
           in sgn x * (of_int (roundHalfEven (\<bar>x\<bar> / u)) * u))"

text \<open>The operators \<open>+\<close>, \<open>-\<close>, \<open>*\<close> and \<open>/\<close> of the source on numbers.\<close>

definition doubleAdd :: "rat \<Rightarrow> rat \<Rightarrow> rat" where
  "doubleAdd x y = roundToDouble (x + y)"

definition doubleSub :: "rat \<Rightarrow> rat \<Rightarrow> rat" where
  "doubleSub x y = roundToDouble (x - y)"

definition doubleMul :: "rat \<Rightarrow> rat \<Rightarrow> rat" where
  "doubleMul x y = roundToDouble (x * y)"

definition doubleDiv :: "rat \<Rightarrow> rat \<Rightarrow> rat" where
  "doubleDiv x y = roundToDouble (x / y)"

section \<open>The data of the PDF processor\<close>

text \<open>
  Coordinates, widths and percentages are doubles; page numbers, indices and sizes are
  naturals.
\<close>

record TextExtractionOptions =
  preserveFormatting :: bool
  includeMetadata :: bool
  combineTextItems :: bool

definition defaultOptions :: TextExtractionOptions where
  "defaultOptions =
     \<lparr>preserveFormatting = True, includeMetadata = True, combineTextItems = True\<rparr>"

text \<open>
  A text item of the fragment source: \<open>str\<close>, the entries 4 and 5 of \<open>transform\<close>, and
  \<open>width\<close>, which may be absent.
\<close>

record TextItem =
  str :: jsstring
  transform4 :: rat
  transform5 :: rat
  width :: "rat option"

record TextContent =
  items :: "TextItem list option"

datatype error = Error (message: jsstring)

record PDFPageProxy =
  getTextContent :: "error + TextContent option"

record PDFInfo =
  Title :: "jsstring option"
  Author :: "jsstring option"
  Subject :: "jsstring option"
  Creator :: "jsstring option"
  Producer :: "jsstring option"
  CreationDate :: "jsstring option"
  ModDate :: "jsstring option"

record PDFMetadata =
  info :: "PDFInfo option"

record PDFDocumentProxy =
  numPages :: nat
  getPage :: "nat \<Rightarrow> error + PDFPageProxy"
  getMetadata :: "error + PDFMetadata"

record Metadata =
  pageCount :: nat
  title :: "jsstring option"
  author :: "jsstring option"
  subject :: "jsstring option"
  creator :: "jsstring option"
  producer :: "jsstring option"
  creationDate :: "jsstring option"
  modificationDate :: "jsstring option"

record PageInfo =
  pageNumber :: nat
  "text" :: jsstring
  characterCount :: nat

record ExtractedTextData =
  "text" :: jsstring
  metadata :: "Metadata option"
  pages :: "PageInfo list"

type_synonym ArrayBuffer = "nat list"

record File =
  "type" :: jsstring
  size :: nat

text \<open>
  What the browser and the PDF library do for the processor: the event that the file
  reader fires for a file, and the outcome of the loading task for a buffer.
\<close>

datatype ReaderEvent = OnLoad "ArrayBuffer option" | OnError

record Env =
  readAsArrayBuffer :: "File \<Rightarrow> ReaderEvent"
  getDocument :: "ArrayBuffer \<Rightarrow> error + PDFDocumentProxy"

record ValidationResult =
  isValid :: bool
  error :: "jsstring option"

section \<open>The reconstructor\<close>

text \<open>The character class \<open>[a-zA-Z0-9\.,;:!?\-'"()[\]{}]\<close>.\<close>

definition isStandardPrintable :: "jschar \<Rightarrow> bool" where
  "isStandardPrintable c \<longleftrightarrow>
     (97 \<le> c \<and> c \<le> 122) \<or> (65 \<le> c \<and> c \<le> 90) \<or> (48 \<le> c \<and> c \<le> 57) \<or>
     c \<in> {46, 44, 59, 58, 33, 63, 45, 39, 34, 40, 41, 91, 93, 123, 125}"

text \<open>The loop over the characters of an item, lines 779 to 797.\<close>

definition processChar :: "jschar \<Rightarrow> jsstring" where
  "processChar c =
     (if c > 127 then [c]
      else if c = 32 then [32]
      else if isStandardPrintable c then [c]
      else [c])"

fun processChars :: "jsstring \<Rightarrow> jsstring \<Rightarrow> jsstring" where
  "processChars processedText [] = processedText"
| "processChars processedText (c # cs) = processChars (processedText @ processChar c) cs"

text \<open>
  One round of the loop over the items, lines 767 to 825, on the state
  \<open>(text, lastY, lastX)\<close>; \<open>None\<close> is \<open>null\<close>.
\<close>

type_synonym ReconState = "jsstring \<times> rat option \<times> rat option"

definition processItem ::
  "TextExtractionOptions \<Rightarrow> nat \<Rightarrow> TextItem \<Rightarrow> ReconState \<Rightarrow> ReconState" where
  "processItem options i item st =
     (case st of (text0, lastY, lastX) \<Rightarrow>
        let itemText = str item in
        if trim itemText = [] then (text0, lastY, lastX)
        else
          let currentY = transform5 item;
              currentX = transform4 item;
              processedText = processChars [] itemText;
              text1 =
                (if preserveFormatting options then
                   (if (case lastY of None \<Rightarrow> False | Some y \<Rightarrow> \<bar>doubleSub currentY y\<bar> > 5)
                    then text0 @ [10]
                    else if (case lastX of None \<Rightarrow> False | Some x \<Rightarrow> doubleSub currentX x > 20)
                    then text0 @ [32]
                    else text0)
                 else text0);
              text2 =
                (if combineTextItems options \<and> i > 0 then
                   (if (case lastY of None \<Rightarrow> False | Some y \<Rightarrow> \<bar>doubleSub currentY y\<bar> \<le> 5)
                       \<and> \<not> endsWithSpace text1 \<and> \<not> startsWithSpace processedText
                    then text1 @ [32]
                    else text1)
                 else text1)
          in (text2 @ processedText, Some currentY,
              Some (doubleAdd currentX (case width item of None \<Rightarrow> 0 | Some w \<Rightarrow> w))))"

fun processItems ::
  "TextExtractionOptions \<Rightarrow> nat \<Rightarrow> TextItem list \<Rightarrow> ReconState \<Rightarrow> ReconState" where
  "processItems options i [] st = st"
| "processItems options i (item # rest) st =
     processItems options (i + 1) rest (processItem options i item st)"

text \<open>\<open>processTextContent\<close>, lines 756 to 829.\<close>

definition processTextContent ::
  "TextContent option \<Rightarrow> TextExtractionOptions \<Rightarrow> jsstring" where
  "processTextContent textContent options =
     (case textContent of
        None \<Rightarrow> []
      | Some tc \<Rightarrow>
          (case items tc of
             None \<Rightarrow> []
           | Some its \<Rightarrow> cleanExtractedText (fst (processItems options 0 its ([], None, None)))))"

section \<open>Validation\<close>

text \<open>\<open>validatePDFFile\<close>, lines 859 to 882; \<open>None\<close> is a missing file.\<close>

definition validatePDFFile :: "File option \<Rightarrow> ValidationResult" where
  "validatePDFFile file =
     (case file of
        None \<Rightarrow> \<lparr>isValid = False, error = Some (js ''No file provided'')\<rparr>
      | Some f \<Rightarrow>
          if type f \<noteq> js ''application/pdf''
          then \<lparr>isValid = False, error = Some (js ''File must be a PDF document'')\<rparr>
          else if size f > 50 * 1024 * 1024
          then \<lparr>isValid = False, error = Some (js ''File size must be less than 50MB'')\<rparr>
          else if size f = 0
          then \<lparr>isValid = False, error = Some (js ''File appears to be empty'')\<rparr>
          else \<lparr>isValid = True, error = None\<rparr>)"

section \<open>Extraction\<close>

text \<open>\<open>fileToArrayBuffer\<close>, lines 726 to 746.\<close>

definition fileToArrayBuffer :: "Env \<Rightarrow> File \<Rightarrow> error + ArrayBuffer" where
  "fileToArrayBuffer env file =
     (case readAsArrayBuffer env file of
        OnLoad (Some buffer) \<Rightarrow> Inr buffer
      | OnLoad None \<Rightarrow> Inl (Error (js ''Failed to read file as ArrayBuffer''))
      | OnError \<Rightarrow> Inl (Error (js ''File reading failed'')))"

text \<open>\<open>value || undefined\<close> on an optional string: the empty string is falsy.\<close>

definition orUndefined :: "jsstring option \<Rightarrow> jsstring option" where
  "orUndefined v = (case v of None \<Rightarrow> None | Some s \<Rightarrow> if s = [] then None else Some s)"

text \<open>\<open>pdfMetadata.info?.Field\<close>.\<close>

definition infoField :: "PDFMetadata \<Rightarrow> (PDFInfo \<Rightarrow> jsstring option) \<Rightarrow> jsstring option" where
  "infoField pdfMetadata field = (case info pdfMetadata of None \<Rightarrow> None | Some i \<Rightarrow> field i)"

text \<open>The metadata block, lines 637 to 659.\<close>

definition extractMetadata ::
  "PDFDocumentProxy \<Rightarrow> TextExtractionOptions \<Rightarrow> Metadata option" where
  "extractMetadata pdfDocument options =
     (if includeMetadata options then
        (case getMetadata pdfDocument of
           Inr pdfMetadata \<Rightarrow>
             Some \<lparr>pageCount = numPages pdfDocument,
                   title = orUndefined (infoField pdfMetadata Title),
                   author = orUndefined (infoField pdfMetadata Author),
                   subject = orUndefined (infoField pdfMetadata Subject),
                   creator = orUndefined (infoField pdfMetadata Creator),
                   producer = orUndefined (infoField pdfMetadata Producer),
                   creationDate = orUndefined (infoField pdfMetadata CreationDate),
                   modificationDate = orUndefined (infoField pdfMetadata ModDate)\<rparr>
         | Inl metaError \<Rightarrow>
             Some \<lparr>pageCount = numPages pdfDocument, title = None, author = None,
                   subject = None, creator = None, producer = None, creationDate = None,
                   modificationDate = None\<rparr>)
      else None)"

text \<open>
  The three statements that can throw in the body of a page: \<open>getPage\<close>,
  \<open>getTextContent\<close> and \<open>processTextContent\<close> (which has no throwing branch on the
  text items modelled here).
\<close>

definition pageTextOf ::
  "PDFDocumentProxy \<Rightarrow> TextExtractionOptions \<Rightarrow> nat \<Rightarrow> error + jsstring" where
  "pageTextOf pdfDocument options pageNum =
     (case getPage pdfDocument pageNum of
        Inl e \<Rightarrow> Inl e
      | Inr page \<Rightarrow>
          (case getTextContent page of
             Inl e \<Rightarrow> Inl e
           | Inr textContent \<Rightarrow> Inr (processTextContent textContent options)))"

text \<open>The separator \<open>'\n\n--- Page ' + pageNum + ' ---\n\n'\<close>.\<close>

definition pageSeparator :: "nat \<Rightarrow> jsstring" where
  "pageSeparator pageNum =
     [10, 10] @ js ''--- Page '' @ numberToString pageNum @ js '' ---'' @ [10, 10]"

text \<open>The two statements that extend \<open>fullText\<close> by a page, lines 684 to 690.\<close>

definition appendPage :: "jsstring \<Rightarrow> nat \<Rightarrow> jsstring \<Rightarrow> jsstring" where
  "appendPage fullText pageNum pageText =
     (if pageNum > 1 \<and> trim pageText \<noteq> [] then fullText @ pageSeparator pageNum
      else fullText) @ pageText"

definition errorPlaceholder :: "nat \<Rightarrow> jsstring" where
  "errorPlaceholder pageNum =
     js ''[Error extracting text from page '' @ numberToString pageNum @ js '']''"

text \<open>
  The body of the page loop of \<open>extractDetailedTextFromPDF\<close>, lines 667 to 702, on the
  state \<open>(pages, fullText)\<close>, and the loop.
\<close>

definition detailedPage ::
  "PDFDocumentProxy \<Rightarrow> TextExtractionOptions \<Rightarrow> nat \<Rightarrow> PageInfo list \<times> jsstring
     \<Rightarrow> PageInfo list \<times> jsstring" where
  "detailedPage pdfDocument options pageNum st =
     (case st of (pages0, fullText) \<Rightarrow>
        (case pageTextOf pdfDocument options pageNum of
           Inr pageText \<Rightarrow>
             (pages0 @ [\<lparr>pageNumber = pageNum, text = pageText,
                          characterCount = length pageText\<rparr>],
              appendPage fullText pageNum pageText)
         | Inl pageError \<Rightarrow>
             (pages0 @ [\<lparr>pageNumber = pageNum, text = errorPlaceholder pageNum,
                          characterCount = 0\<rparr>],
              fullText)))"

function detailedLoop ::
  "PDFDocumentProxy \<Rightarrow> TextExtractionOptions \<Rightarrow> nat \<Rightarrow> PageInfo list \<times> jsstring
     \<Rightarrow> PageInfo list \<times> jsstring" where
  "detailedLoop pdfDocument options pageNum st =
     (if pageNum \<le> numPages pdfDocument
      then detailedLoop pdfDocument options (pageNum + 1)
             (detailedPage pdfDocument options pageNum st)
      else st)"
  by pat_completeness auto
termination
  by (relation "measure (\<lambda>(d, opts, n, st). numPages d + 1 - n)") auto

declare detailedLoop.simps [simp del]

text \<open>\<open>extractDetailedTextFromPDF\<close>, lines 613 to 717: \<open>Inl\<close> rejects, \<open>Inr\<close> resolves.\<close>

definition extractDetailedTextFromPDF ::
  "Env \<Rightarrow> File \<Rightarrow> TextExtractionOptions \<Rightarrow> error + ExtractedTextData" where
  "extractDetailedTextFromPDF env file options =
     (case fileToArrayBuffer env file of
        Inl e \<Rightarrow> Inl (Error (js ''PDF processing failed: '' @ message e))
      | Inr arrayBuffer \<Rightarrow>
          (case getDocument env arrayBuffer of
             Inl e \<Rightarrow> Inl (Error (js ''PDF processing failed: '' @ message e))
           | Inr pdfDocument \<Rightarrow>
               let metadata0 = extractMetadata pdfDocument options in
               (case detailedLoop pdfDocument options 1 ([], []) of
                  (pages0, fullText) \<Rightarrow>
                    Inr \<lparr>text = trim fullText, metadata = metadata0, pages = pages0\<rparr>)))"

text \<open>\<open>extractTextFromPDF\<close>, lines 584 to 603.\<close>

definition extractTextFromPDF ::
  "Env \<Rightarrow> File \<Rightarrow> TextExtractionOptions \<Rightarrow> error + jsstring" where
  "extractTextFromPDF env file options =
     (case extractDetailedTextFromPDF env file options of
        Inr extractedData \<Rightarrow> Inr (text extractedData)
      | Inl e \<Rightarrow>
          Inl (Error (js (''Failed to extract text from PDF. '' @
                          ''Please ensure the file is a valid PDF document.''))))"

text \<open>
  \<open>extractTextWithProgress\<close>, lines 893 to 971.  The calls of \<open>onProgress\<close> are collected,
  in order, in a list of pairs (percentage, status), which is returned with the outcome.
  The page loop carries \<open>(fullText, calls)\<close>; a page that throws ends it.
\<close>

type_synonym ProgressCall = "rat \<times> jsstring"

text \<open>The percentage \<open>40 + (pageNum / totalPages) * 50\<close> of line 953.\<close>

definition pageProgress :: "nat \<Rightarrow> nat \<Rightarrow> rat" where
  "pageProgress totalPages pageNum =
     doubleAdd 40 (doubleMul (doubleDiv (of_nat pageNum) (of_nat totalPages)) 50)"

function progressLoop ::
  "PDFDocumentProxy \<Rightarrow> TextExtractionOptions \<Rightarrow> nat \<Rightarrow> nat \<Rightarrow> jsstring \<times> ProgressCall list
     \<Rightarrow> ProgressCall list \<times> (error + jsstring)" where
  "progressLoop pdfDocument options totalPages pageNum st =
     (case st of (fullText, calls) \<Rightarrow>
        if pageNum \<le> totalPages then
          (case pageTextOf pdfDocument options pageNum of
             Inl e \<Rightarrow> (calls, Inl e)
           | Inr pageText \<Rightarrow>
               progressLoop pdfDocument options totalPages (pageNum + 1)
                 (appendPage fullText pageNum pageText,
                  calls @ [(pageProgress totalPages pageNum,
                            js ''Processed page '' @ numberToString pageNum @ js '' of '' @
                              numberToString totalPages)]))
        else (calls, Inr fullText))"
  by pat_completeness auto
termination
  by (relation "measure (\<lambda>(d, opts, t, n, st). t + 1 - n)") auto

declare progressLoop.simps [simp del]

definition rethrow :: "error \<Rightarrow> error" where
  "rethrow e = Error (js ''PDF text extraction failed: '' @ message e)"

definition extractTextWithProgress ::
  "Env \<Rightarrow> File \<Rightarrow> TextExtractionOptions option \<Rightarrow> ProgressCall list \<times> (error + jsstring)" where
  "extractTextWithProgress env file options =
     (let calls1 = [(10, js ''Validating PDF file...'')];
          validation = validatePDFFile (Some file)
      in
      if \<not> isValid validation
      then (calls1, Inl (rethrow (Error (case error validation of None \<Rightarrow> [] | Some m \<Rightarrow> m))))
      else
        let calls2 = calls1 @ [(20, js ''Loading PDF document...'')] in
        (case fileToArrayBuffer env file of
           Inl e \<Rightarrow> (calls2, Inl (rethrow e))
         | Inr arrayBuffer \<Rightarrow>
             let calls3 = calls2 @ [(30, js ''Parsing PDF structure...'')] in
             (case getDocument env arrayBuffer of
                Inl e \<Rightarrow> (calls3, Inl (rethrow e))
              | Inr pdfDocument \<Rightarrow>
                  let calls4 = calls3 @
                        [(40, js ''Processing '' @ numberToString (numPages pdfDocument) @
                                js '' pages...'')];
                      totalPages = numPages pdfDocument
                  in
                  (case progressLoop pdfDocument
                          (case options of None \<Rightarrow> defaultOptions | Some opts \<Rightarrow> opts)
                          totalPages 1 ([], calls4) of
                     (calls5, Inl e) \<Rightarrow> (calls5, Inl (rethrow e))
                   | (calls5, Inr fullText) \<Rightarrow>
                       (calls5 @ [(95, js ''Finalizing text extraction...''),
                                  (100, js ''Text extraction completed'')],
                        Inr (trim fullText))))))"

section \<open>Pages and contributions\<close>

text \<open>
  The entry that the page loop of \<open>extractDetailedTextFromPDF\<close> pushes for a page, and
  the text by which a page extends \<open>fullText\<close>: both branches of \<open>detailedPage\<close>, seen
  from an empty state.
\<close>

definition pageEntry :: "PDFDocumentProxy \<Rightarrow> TextExtractionOptions \<Rightarrow> nat \<Rightarrow> PageInfo" where
  "pageEntry pdfDocument options pageNum =
     (case pageTextOf pdfDocument options pageNum of
        Inr pageText \<Rightarrow>
          \<lparr>pageNumber = pageNum, text = pageText, characterCount = length pageText\<rparr>
      | Inl pageError \<Rightarrow>
          \<lparr>pageNumber = pageNum, text = errorPlaceholder pageNum, characterCount = 0\<rparr>)"

definition pageContribution :: "PDFDocumentProxy \<Rightarrow> TextExtractionOptions \<Rightarrow> nat \<Rightarrow> jsstring" where
  "pageContribution pdfDocument options pageNum =
     (case pageTextOf pdfDocument options pageNum of
        Inr pageText \<Rightarrow> appendPage [] pageNum pageText
      | Inl pageError \<Rightarrow> [])"

section \<open>Shapes of normalized text\<close>

text \<open>The matchers of \<open>\s*\n\<close> and of \<open>\s*\n\s*\n\<close>, the two tails of the expression.\<close>

definition breakTail :: "jsstring \<Rightarrow> jsstring option" where
  "breakTail = star isWhiteSpace (lit 10 Some)"

definition breakPair :: "jsstring \<Rightarrow> jsstring option" where
  "breakPair = star isWhiteSpace (lit 10 breakTail)"

text \<open>The number of line breaks in the whitespace that a string starts with.\<close>

fun leadingBreaks :: "jsstring \<Rightarrow> nat" where
  "leadingBreaks [] = 0"
| "leadingBreaks (c # cs) =
     (if isWhiteSpace c then (if c = 10 then 1 else 0) + leadingBreaks cs else 0)"

text \<open>No tab and no two spaces in a row: what the first replacement leaves.\<close>

fun spacesCollapsed :: "jsstring \<Rightarrow> bool" where
  "spacesCollapsed [] = True"
| "spacesCollapsed [c] = (c \<noteq> 9)"
| "spacesCollapsed (a # b # cs) = (a \<noteq> 9 \<and> \<not> (a = 32 \<and> b = 32) \<and> spacesCollapsed (b # cs))"

text \<open>
  After every line break, the whitespace that follows holds at most one more line
  break: what the second replacement leaves.
\<close>

fun breaksCollapsed :: "jsstring \<Rightarrow> bool" where
  "breaksCollapsed [] = True"
| "breaksCollapsed (c # cs) = ((c = 10 \<longrightarrow> leadingBreaks cs \<le> 1) \<and> breaksCollapsed cs)"

section \<open>Example inputs\<close>

text \<open>
  A PDF file of 1000 bytes; pages with one text item; a document of three pages whose
  second page throws; a document of one page that throws; a document of two pages.
\<close>

definition exampleFile :: File where
  "exampleFile = \<lparr>type = js ''application/pdf'', size = 1000\<rparr>"

definition textPage :: "string \<Rightarrow> error + PDFPageProxy" where
  "textPage s =
     Inr \<lparr>getTextContent = Inr (Some \<lparr>items = Some
       [\<lparr>str = js s, transform4 = 0, transform5 = 0, width = None\<rparr>]\<rparr>)\<rparr>"

definition brokenDocument :: PDFDocumentProxy where
  "brokenDocument =
     \<lparr>numPages = 3,
      getPage = (\<lambda>n. if n = 2 then Inl (Error (js ''boom''))
                     else if n = 1 then textPage ''A'' else textPage ''C''),
      getMetadata = Inr \<lparr>info = None\<rparr>\<rparr>"

definition brokenEnv :: Env where
  "brokenEnv =
     \<lparr>readAsArrayBuffer = (\<lambda>f. OnLoad (Some [])), getDocument = (\<lambda>b. Inr brokenDocument)\<rparr>"

definition failedPageDocument :: PDFDocumentProxy where
  "failedPageDocument =
     \<lparr>numPages = 1, getPage = (\<lambda>n. Inl (Error (js ''boom''))),
      getMetadata = Inr \<lparr>info = None\<rparr>\<rparr>"

definition failedPageEnv :: Env where
  "failedPageEnv =
     \<lparr>readAsArrayBuffer = (\<lambda>f. OnLoad (Some [])),
      getDocument = (\<lambda>b. Inr failedPageDocument)\<rparr>"

definition twoPageDocument :: PDFDocumentProxy where
  "twoPageDocument =
     \<lparr>numPages = 2, getPage = (\<lambda>n. if n = 1 then textPage ''A'' else textPage ''B''),
      getMetadata = Inr \<lparr>info = None\<rparr>\<rparr>"

definition twoPageEnv :: Env where
  "twoPageEnv =
     \<lparr>readAsArrayBuffer = (\<lambda>f. OnLoad (Some [])), getDocument = (\<lambda>b. Inr twoPageDocument)\<rparr>"

definition threePageDocument :: PDFDocumentProxy where
  "threePageDocument =
     \<lparr>numPages = 3,
      getPage = (\<lambda>n. if n = 1 then textPage ''A'' else if n = 2 then textPage ''B''
                     else textPage ''C''),
      getMetadata = Inr \<lparr>info = None\<rparr>\<rparr>"

definition threePageEnv :: Env where
  "threePageEnv =
     \<lparr>readAsArrayBuffer = (\<lambda>f. OnLoad (Some [])),
      getDocument = (\<lambda>b. Inr threePageDocument)\<rparr>"

definition hugeDocument :: PDFDocumentProxy where
  "hugeDocument =
     \<lparr>numPages = 9007199254740991,
      getPage = (\<lambda>n. Inr \<lparr>getTextContent = Inr (Some \<lparr>items = Some []\<rparr>)\<rparr>),
      getMetadata = Inr \<lparr>info = None\<rparr>\<rparr>"

definition hugeEnv :: Env where
  "hugeEnv =
     \<lparr>readAsArrayBuffer = (\<lambda>f. OnLoad (Some [])), getDocument = (\<lambda>b. Inr hugeDocument)\<rparr>"

definition blankFirstDocument :: PDFDocumentProxy where
  "blankFirstDocument =
     \<lparr>numPages = 2, getPage = (\<lambda>n. if n = 1 then textPage '''' else textPage ''B''),
      getMetadata = Inr \<lparr>info = None\<rparr>\<rparr>"

definition blankFirstEnv :: Env where
  "blankFirstEnv =
     \<lparr>readAsArrayBuffer = (\<lambda>f. OnLoad (Some [])),
      getDocument = (\<lambda>b. Inr blankFirstDocument)\<rparr>"

text \<open>
  Whitespace in the general sense of the claims: the characters with the Unicode
  property White_Space.  It differs from \<open>isWhiteSpace\<close>, the set that \<open>trim\<close> strips,
  at U+0085 (only here) and at U+FEFF (only there).
\<close>

definition isUnicodeWhiteSpace :: "jschar \<Rightarrow> bool" where
  "isUnicodeWhiteSpace c \<longleftrightarrow>
     (9 \<le> c \<and> c \<le> 13) \<or> c = 32 \<or> c = 133 \<or> c = 160 \<or> c = 5760 \<or>
     (8192 \<le> c \<and> c \<le> 8202) \<or> c = 8232 \<or> c = 8233 \<or> c = 8239 \<or> c = 8287 \<or>
     c = 12288"

section \<open>Rounding\<close>

subsection \<open>Rounding to an integer\<close>

lemma roundHalfEven_of_int [simp]: "roundHalfEven (of_int i) = i"
  by (simp add: roundHalfEven_def)

lemma roundHalfEven_error: "\<bar>of_int (roundHalfEven r) - r\<bar> \<le> 1 / 2"
proof -
  have "of_int \<lfloor>r\<rfloor> \<le> r" and "r < of_int \<lfloor>r\<rfloor> + 1"
    by linarith+
  then show ?thesis
    by (auto simp: roundHalfEven_def Let_def)
qed

lemma roundHalfEven_mono: "r \<le> s \<Longrightarrow> roundHalfEven r \<le> roundHalfEven s"
proof -
  assume rs: "r \<le> s"
  then have fl: "\<lfloor>r\<rfloor> \<le> \<lfloor>s\<rfloor>" by (rule floor_mono)
  have r: "\<lfloor>r\<rfloor> \<le> roundHalfEven r" "roundHalfEven r \<le> \<lfloor>r\<rfloor> + 1"
    by (auto simp: roundHalfEven_def Let_def)
  have s: "\<lfloor>s\<rfloor> \<le> roundHalfEven s" "roundHalfEven s \<le> \<lfloor>s\<rfloor> + 1"
    by (auto simp: roundHalfEven_def Let_def)
  show ?thesis
  proof (cases "\<lfloor>r\<rfloor> = \<lfloor>s\<rfloor>")
    case True
    with rs show ?thesis
      by (auto simp: roundHalfEven_def Let_def)
  next
    case False
    with fl have "\<lfloor>r\<rfloor> + 1 \<le> \<lfloor>s\<rfloor>" by simp
    with r s show ?thesis by linarith
  qed
qed

subsection \<open>The binary exponent\<close>

lemma two_powi_pos [simp]: "(0::rat) < 2 powi e"
  by (simp add: zero_less_power_int)

lemma two_powi_le: "e \<le> e' \<Longrightarrow> (2::rat) powi e \<le> 2 powi e'"
  by (rule power_int_increasing) simp_all

lemma two_powi_less: "e < e' \<Longrightarrow> (2::rat) powi e < 2 powi e'"
  by (rule power_int_strict_increasing) simp_all

lemma two_powi_Suc: "(2::rat) powi (e + 1) = 2 * 2 powi e"
  by (simp add: power_int_add)

lemma two_powi_add: "(2::rat) powi (a + b) = 2 powi a * 2 powi b"
  by (simp add: power_int_add)

lemma two_powi_diff: "(2::rat) powi (a - b) = 2 powi a / 2 powi b"
  by (simp add: power_int_diff)

lemma bitlen_bounds_rat:
  assumes "0 < a"
  shows "(2::rat) powi (bitlen a - 1) \<le> of_int a" and "(of_int a :: rat) < 2 powi bitlen a"
proof -
  from assms have b: "1 \<le> bitlen a"
    by (auto simp: bitlen_alt_def)
  from bitlen_bounds [OF assms] have lo: "2 ^ nat (bitlen a - 1) \<le> a" and hi: "a < 2 ^ nat (bitlen a)"
    by simp_all
  from lo have "(of_int (2 ^ nat (bitlen a - 1)) :: rat) \<le> of_int a"
    by (simp only: of_int_le_iff)
  moreover have "(2::rat) powi (bitlen a - 1) = 2 ^ nat (bitlen a - 1)"
    using b by (simp add: power_int_def)
  ultimately show "(2::rat) powi (bitlen a - 1) \<le> of_int a" by simp
  from hi have "(of_int a :: rat) < of_int (2 ^ nat (bitlen a))"
    by (simp only: of_int_less_iff)
  moreover have "(2::rat) powi (bitlen a) = 2 ^ nat (bitlen a)"
    using b by (simp add: power_int_def)
  ultimately show "(of_int a :: rat) < 2 powi bitlen a" by simp
qed

lemma exponent_bounds:
  assumes "0 < x"
  shows "2 powi exponent x \<le> x" and "x < 2 powi (exponent x + 1)"
proof -
  obtain a b where q: "quotient_of x = (a, b)"
    by (cases "quotient_of x")
  then have b: "0 < b" and x: "x = of_int a / of_int b"
    by (simp_all add: quotient_of_denom_pos quotient_of_div)
  with assms have a: "0 < a"
    by (simp add: zero_less_divide_iff)
  define d where "d = bitlen a - bitlen b"
  have ub: "(of_int b :: rat) < 2 powi bitlen b" and lb: "(2::rat) powi (bitlen b - 1) \<le> of_int b"
    using bitlen_bounds_rat [OF b] by simp_all
  have ua: "(of_int a :: rat) < 2 powi bitlen a" and la: "(2::rat) powi (bitlen a - 1) \<le> of_int a"
    using bitlen_bounds_rat [OF a] by simp_all
  have bpos: "(0::rat) < of_int b" using b by simp
  have "x * of_int b = of_int a"
    using bpos x by simp
  have upper: "x < 2 powi (d + 1)"
  proof -
    have "of_int a < (2::rat) powi bitlen a" by (rule ua)
    also have "\<dots> = 2 powi (d + 1) * 2 powi (bitlen b - 1)"
      by (simp add: d_def two_powi_add [symmetric])
    also have "\<dots> \<le> 2 powi (d + 1) * of_int b"
      using lb by (simp add: mult_left_mono)
    finally show ?thesis
      using bpos by (simp add: x pos_divide_less_eq)
  qed
  have lower: "2 powi (d - 1) < x"
  proof -
    have "2 powi (d - 1) * of_int b < (2::rat) powi (d - 1) * 2 powi bitlen b"
      using ub by (simp add: mult_strict_left_mono)
    also have "\<dots> = 2 powi (bitlen a - 1)"
      by (simp add: d_def two_powi_add [symmetric])
    also have "\<dots> \<le> of_int a" by (rule la)
    finally show ?thesis
      using bpos by (simp add: x pos_less_divide_eq)
  qed
  have e: "exponent x = (if 2 powi d \<le> x then d else d - 1)"
    by (simp add: exponent_def q d_def Let_def)
  show "2 powi exponent x \<le> x"
    using lower by (simp add: e)
  show "x < 2 powi (exponent x + 1)"
    using upper by (auto simp: e)
qed

lemma exponent_less: "0 < x \<Longrightarrow> x < 2 powi E \<Longrightarrow> exponent x < E"
proof (rule ccontr)
  assume x: "0 < x" "x < 2 powi E" and "\<not> exponent x < E"
  then have "(2::rat) powi E \<le> 2 powi exponent x"
    by (intro two_powi_le) simp
  with exponent_bounds(1) [OF x(1)] x(2) show False by simp
qed

lemma exponent_ge: "0 < x \<Longrightarrow> 2 powi E \<le> x \<Longrightarrow> E \<le> exponent x"
proof (rule ccontr)
  assume x: "0 < x" "2 powi E \<le> x" and "\<not> E \<le> exponent x"
  then have "(2::rat) powi (exponent x + 1) \<le> 2 powi E"
    by (intro two_powi_le) simp
  with exponent_bounds(2) [OF x(1)] x(2) show False by simp
qed

lemma exponent_mono: "0 < x \<Longrightarrow> x \<le> y \<Longrightarrow> exponent x \<le> exponent y"
proof -
  assume x: "0 < x" and xy: "x \<le> y"
  then have "2 powi exponent x \<le> y"
    using exponent_bounds(1) [OF x] by simp
  with x xy show ?thesis
    by (intro exponent_ge) simp_all
qed

subsection \<open>Rounding to a double\<close>

lemma roundToDouble_pos:
  "0 < x \<Longrightarrow>
   roundToDouble x = of_int (roundHalfEven (x / 2 powi (exponent x - 52))) * 2 powi (exponent x - 52)"
  by (simp add: roundToDouble_def Let_def)

lemma roundToDouble_error:
  assumes "0 < x"
  shows "\<bar>roundToDouble x - x\<bar> \<le> 2 powi (exponent x - 53)"
proof -
  define u :: rat where "u = 2 powi (exponent x - 52)"
  define m :: rat where "m = of_int (roundHalfEven (x / u))"
  have u: "0 < u" by (simp add: u_def)
  have "\<bar>m - x / u\<bar> \<le> 1 / 2"
    unfolding m_def by (rule roundHalfEven_error)
  then have "\<bar>m - x / u\<bar> * u \<le> 1 / 2 * u"
    using u by (simp add: mult_right_mono)
  moreover have "\<bar>m - x / u\<bar> * u = \<bar>m * u - x\<bar>"
  proof -
    have "(m - x / u) * u = m * u - x"
      using u by (simp add: left_diff_distrib)
    then have "\<bar>m * u - x\<bar> = \<bar>m - x / u\<bar> * \<bar>u\<bar>"
      by (simp only: abs_mult [symmetric])
    with u show ?thesis by simp
  qed
  moreover have "1 / 2 * u = 2 powi (exponent x - 53)"
    by (simp add: u_def two_powi_diff)
  moreover have "roundToDouble x = m * u"
    using assms by (simp add: roundToDouble_pos u_def m_def)
  ultimately show ?thesis by linarith
qed

lemma roundToDouble_error_below:
  assumes "0 < x" and "x < 2 powi E"
  shows "\<bar>roundToDouble x - x\<bar> \<le> 2 powi (E - 54)"
proof -
  from assms have "exponent x - 53 \<le> E - 54"
    using exponent_less [of x E] by simp
  then have "(2::rat) powi (exponent x - 53) \<le> 2 powi (E - 54)"
    by (rule two_powi_le)
  with roundToDouble_error [OF assms(1)] show ?thesis by simp
qed

lemma roundToDouble_range:
  assumes "0 < x"
  shows "2 powi exponent x \<le> roundToDouble x" and "roundToDouble x \<le> 2 powi (exponent x + 1)"
proof -
  define u :: rat where "u = 2 powi (exponent x - 52)"
  define m :: int where "m = roundHalfEven (x / u)"
  have u: "0 < u" by (simp add: u_def)
  have fl: "roundToDouble x = of_int m * u"
    using assms by (simp add: roundToDouble_pos u_def m_def)
  have lo: "of_int (2 ^ 52) \<le> x / u"
    using exponent_bounds(1) [OF assms] u
    by (simp add: u_def two_powi_diff pos_le_divide_eq del: of_int_power)
  have hi: "x / u \<le> of_int (2 ^ 53)"
    using exponent_bounds(2) [OF assms] u
    by (simp add: u_def two_powi_diff two_powi_Suc pos_divide_le_eq del: of_int_power)
  from roundHalfEven_mono [OF lo] have "(2::int) ^ 52 \<le> m"
    unfolding m_def by (simp only: roundHalfEven_of_int)
  then have "(of_int (2 ^ 52) :: rat) \<le> of_int m"
    by (simp only: of_int_le_iff)
  then have "of_int (2 ^ 52) * u \<le> of_int m * u"
    using u by (simp only: mult_le_cancel_right_pos)
  moreover have "of_int (2 ^ 52) * u = 2 powi exponent x"
    by (simp add: u_def two_powi_diff)
  ultimately show "2 powi exponent x \<le> roundToDouble x"
    unfolding fl by linarith
  from roundHalfEven_mono [OF hi] have "m \<le> (2::int) ^ 53"
    unfolding m_def by (simp only: roundHalfEven_of_int)
  then have "(of_int m :: rat) \<le> of_int (2 ^ 53)"
    by (simp only: of_int_le_iff)
  then have "of_int m * u \<le> of_int (2 ^ 53) * u"
    using u by (simp only: mult_le_cancel_right_pos)
  moreover have "of_int (2 ^ 53) * u = 2 powi (exponent x + 1)"
    by (simp add: u_def two_powi_diff two_powi_Suc)
  ultimately show "roundToDouble x \<le> 2 powi (exponent x + 1)"
    unfolding fl by linarith
qed

lemma roundToDouble_positive: "0 < x \<Longrightarrow> 0 < roundToDouble x"
  using roundToDouble_range(1) [of x] two_powi_pos [of "exponent x"] by linarith

lemma roundToDouble_mono:
  assumes "0 < x" and "x \<le> y"
  shows "roundToDouble x \<le> roundToDouble y"
proof -
  from assms have y: "0 < y" by simp
  have le: "exponent x \<le> exponent y"
    using assms by (rule exponent_mono)
  show ?thesis
  proof (cases "exponent x = exponent y")
    case True
    define u :: rat where "u = 2 powi (exponent x - 52)"
    have u: "0 < u" by (simp add: u_def)
    from assms(2) u have "x / u \<le> y / u"
      by (simp add: divide_right_mono)
    then have "roundHalfEven (x / u) \<le> roundHalfEven (y / u)"
      by (rule roundHalfEven_mono)
    then have "(of_int (roundHalfEven (x / u)) :: rat) \<le> of_int (roundHalfEven (y / u))"
      by (simp only: of_int_le_iff)
    then have "of_int (roundHalfEven (x / u)) * u \<le> of_int (roundHalfEven (y / u)) * u"
      using u by (simp only: mult_le_cancel_right_pos)
    then show ?thesis
      using assms(1) y True by (simp add: roundToDouble_pos u_def)
  next
    case False
    with le have "exponent x + 1 \<le> exponent y" by simp
    then have "(2::rat) powi (exponent x + 1) \<le> 2 powi exponent y"
      by (rule two_powi_le)
    with roundToDouble_range(2) [OF assms(1)] roundToDouble_range(1) [OF y]
    show ?thesis by linarith
  qed
qed


subsection \<open>The percentage of a page\<close>

lemma roundToDouble_1: "roundToDouble 1 = 1"
  and roundToDouble_40: "roundToDouble 40 = 40"
  and roundToDouble_50: "roundToDouble 50 = 50"
  and roundToDouble_90: "roundToDouble 90 = 90"
  by code_simp+

lemma quotient_facts:
  fixes k n :: nat
  assumes "1 \<le> k" and "k \<le> n"
  shows "0 < doubleDiv (of_nat k) (of_nat n)"
    and "doubleDiv (of_nat k) (of_nat n) \<le> 1"
    and "\<bar>doubleDiv (of_nat k) (of_nat n) - of_nat k / of_nat n\<bar> \<le> 2 powi (- 54)"
proof -
  define x :: rat where "x = of_nat k / of_nat n"
  from assms have x: "0 < x" "x \<le> 1"
    by (simp_all add: x_def)
  show "0 < doubleDiv (of_nat k) (of_nat n)"
    unfolding doubleDiv_def x_def [symmetric] using x(1) by (rule roundToDouble_positive)
  show "doubleDiv (of_nat k) (of_nat n) \<le> 1"
    unfolding doubleDiv_def x_def [symmetric]
    using roundToDouble_mono [OF x] by (simp add: roundToDouble_1)
  show "\<bar>doubleDiv (of_nat k) (of_nat n) - of_nat k / of_nat n\<bar> \<le> 2 powi (- 54)"
  proof (cases "x = 1")
    case True
    then show ?thesis
      unfolding doubleDiv_def x_def [symmetric] by (simp add: roundToDouble_1)
  next
    case False
    with x have "x < 2 powi 0" by simp
    from roundToDouble_error_below [OF x(1) this] show ?thesis
      unfolding doubleDiv_def x_def [symmetric] by simp
  qed
qed

lemma product_facts:
  assumes "0 < q" and "q \<le> 1"
  shows "0 < doubleMul q 50"
    and "doubleMul q 50 \<le> 50"
    and "\<bar>doubleMul q 50 - q * 50\<bar> \<le> 2 powi (- 48)"
proof -
  from assms have y: "0 < q * 50" "q * 50 \<le> 50" by simp_all
  show "0 < doubleMul q 50"
    unfolding doubleMul_def using y(1) by (rule roundToDouble_positive)
  show "doubleMul q 50 \<le> 50"
    unfolding doubleMul_def using roundToDouble_mono [OF y] by (simp add: roundToDouble_50)
  have "q * 50 < 2 powi 6"
    using y(2) by simp
  from roundToDouble_error_below [OF y(1) this] show "\<bar>doubleMul q 50 - q * 50\<bar> \<le> 2 powi (- 48)"
    unfolding doubleMul_def by simp
qed

lemma sum_facts:
  assumes "0 < p" and "p \<le> 50"
  shows "40 \<le> doubleAdd 40 p"
    and "doubleAdd 40 p \<le> 90"
    and "\<bar>doubleAdd 40 p - (40 + p)\<bar> \<le> 2 powi (- 47)"
proof -
  from assms have z: "(40::rat) \<le> 40 + p" "40 + p \<le> 90" "0 < 40 + p" by simp_all
  show "40 \<le> doubleAdd 40 p"
    unfolding doubleAdd_def using roundToDouble_mono [OF _ z(1)] by (simp add: roundToDouble_40)
  show "doubleAdd 40 p \<le> 90"
    unfolding doubleAdd_def using roundToDouble_mono [OF z(3,2)] by (simp add: roundToDouble_90)
  have "40 + p < 2 powi 7"
    using z(2) by simp
  from roundToDouble_error_below [OF z(3) this] show "\<bar>doubleAdd 40 p - (40 + p)\<bar> \<le> 2 powi (- 47)"
    unfolding doubleAdd_def by simp
qed

lemma pageProgress_bounds:
  assumes "1 \<le> k" and "k \<le> n"
  shows "40 \<le> pageProgress n k" and "pageProgress n k \<le> 90"
  unfolding pageProgress_def
  using sum_facts(1,2) [OF product_facts(1,2) [OF quotient_facts(1,2) [OF assms]]] by simp_all

lemma pageProgress_mono:
  assumes "1 \<le> j" and "j \<le> k" and "k \<le> n"
  shows "pageProgress n j \<le> pageProgress n k"
proof -
  from assms have "(0::rat) < of_nat j / of_nat n" "(of_nat j :: rat) / of_nat n \<le> of_nat k / of_nat n"
    by (simp_all add: divide_right_mono)
  then have q: "doubleDiv (of_nat j) (of_nat n) \<le> doubleDiv (of_nat k) (of_nat n)"
    unfolding doubleDiv_def by (rule roundToDouble_mono)
  from assms have qj: "0 < doubleDiv (of_nat j) (of_nat n)"
    by (intro quotient_facts(1)) simp_all
  then have "0 < doubleDiv (of_nat j) (of_nat n) * 50"
    and "doubleDiv (of_nat j) (of_nat n) * 50 \<le> doubleDiv (of_nat k) (of_nat n) * 50"
    using q by simp_all
  then have p: "doubleMul (doubleDiv (of_nat j) (of_nat n)) 50 \<le>
      doubleMul (doubleDiv (of_nat k) (of_nat n)) 50"
    unfolding doubleMul_def by (rule roundToDouble_mono)
  from assms have "0 < doubleMul (doubleDiv (of_nat j) (of_nat n)) 50"
    by (intro product_facts(1) quotient_facts(1,2)) simp_all
  then have "0 < 40 + doubleMul (doubleDiv (of_nat j) (of_nat n)) 50"
    and "40 + doubleMul (doubleDiv (of_nat j) (of_nat n)) 50 \<le>
      40 + doubleMul (doubleDiv (of_nat k) (of_nat n)) 50"
    using p by simp_all
  then show ?thesis
    unfolding pageProgress_def doubleAdd_def by (rule roundToDouble_mono)
qed

lemma pageProgress_error:
  assumes "1 \<le> k" and "k \<le> n"
  shows "\<bar>pageProgress n k - (40 + of_nat k / of_nat n * 50)\<bar> \<le> 121 / 9007199254740992"
proof -
  define x :: rat where "x = of_nat k / of_nat n"
  define q where "q = doubleDiv (of_nat k) (of_nat n)"
  define p where "p = doubleMul q 50"
  define s where "s = doubleAdd 40 p"
  have q: "0 < q" "q \<le> 1" "\<bar>q - x\<bar> \<le> 2 powi (- 54)"
    unfolding q_def x_def using quotient_facts [OF assms] by simp_all
  have p: "0 < p" "p \<le> 50" "\<bar>p - q * 50\<bar> \<le> 2 powi (- 48)"
    unfolding p_def using product_facts [OF q(1,2)] by simp_all
  have s: "\<bar>s - (40 + p)\<bar> \<le> 2 powi (- 47)"
    unfolding s_def using sum_facts(3) [OF p(1,2)] .
  have e: "(2::rat) powi (- 54) = 1 / 18014398509481984"
    "(2::rat) powi (- 48) = 1 / 281474976710656"
    "(2::rat) powi (- 47) = 1 / 140737488355328"
    by (simp_all add: power_int_minus_divide)
  have "pageProgress n k = s"
    by (simp add: pageProgress_def s_def p_def q_def)
  moreover have "\<bar>s - (40 + x * 50)\<bar> \<le> 121 / 9007199254740992"
    using q(3) p(3) s unfolding e by linarith
  ultimately show ?thesis
    unfolding x_def by simp
qed

lemma page_fraction_gap:
  fixes j k n :: nat
  assumes "j < k" and "1 \<le> n" and "n \<le> 2 ^ 50"
  shows "(of_nat j :: rat) / of_nat n + 1 / 1125899906842624 \<le> of_nat k / of_nat n"
proof -
  from assms have n: "(0::rat) < of_nat n" by simp
  have "(of_nat n :: rat) \<le> of_nat (2 ^ 50)"
    using assms(3) by (simp only: of_nat_le_iff)
  then have n50: "(of_nat n :: rat) \<le> 1125899906842624" by simp
  from assms have "(of_nat j :: rat) + 1 \<le> of_nat k"
    by (metis Suc_leI of_nat_Suc of_nat_le_iff add.commute)
  then have "((of_nat j :: rat) + 1) / of_nat n \<le> of_nat k / of_nat n"
    using n by (simp only: divide_right_mono less_imp_le)
  then have "(of_nat j :: rat) / of_nat n + 1 / of_nat n \<le> of_nat k / of_nat n"
    by (simp only: add_divide_distrib)
  moreover have "(1::rat) / 1125899906842624 \<le> 1 / of_nat n"
    using n n50 by (intro divide_left_mono) simp_all
  ultimately show ?thesis
    by linarith
qed

lemma pageProgress_strict:
  assumes "1 \<le> j" and "j < k" and "k \<le> n" and "n \<le> 2 ^ 50"
  shows "pageProgress n j < pageProgress n k"
proof -
  define x :: rat where "x = of_nat j / of_nat n"
  define y :: rat where "y = of_nat k / of_nat n"
  from assms have gap: "x + 1 / 1125899906842624 \<le> y"
    unfolding x_def y_def by (intro page_fraction_gap) simp_all
  from assms have ej: "\<bar>pageProgress n j - (40 + x * 50)\<bar> \<le> 121 / 9007199254740992"
    unfolding x_def by (intro pageProgress_error) simp_all
  from assms have ek: "\<bar>pageProgress n k - (40 + y * 50)\<bar> \<le> 121 / 9007199254740992"
    unfolding y_def by (intro pageProgress_error) simp_all
  from gap ej ek show ?thesis
    by linarith
qed

lemma pageProgress_above_40:
  assumes "1 \<le> k" and "k \<le> n" and "n \<le> 2 ^ 50"
  shows "40 < pageProgress n k"
proof -
  define y :: rat where "y = of_nat k / of_nat n"
  from assms have "(of_nat 0 :: rat) / of_nat n + 1 / 1125899906842624 \<le> of_nat k / of_nat n"
    by (intro page_fraction_gap) simp_all
  then have gap: "1 / 1125899906842624 \<le> y"
    by (simp add: y_def)
  have ek: "\<bar>pageProgress n k - (40 + y * 50)\<bar> \<le> 121 / 9007199254740992"
    unfolding y_def using assms by (intro pageProgress_error) simp_all
  from gap ek show ?thesis
    by linarith
qed

lemma pageProgress_last: "1 \<le> n \<Longrightarrow> pageProgress n n = 90"
  by (simp add: pageProgress_def doubleAdd_def doubleMul_def doubleDiv_def
      roundToDouble_1 roundToDouble_50 roundToDouble_90)

subsection \<open>Values\<close>

lemma roundToDouble_0 [simp]: "roundToDouble 0 = 0"
  by (simp add: roundToDouble_def)

lemma roundToDouble_10: "roundToDouble 10 = 10"
  and roundToDouble_508: "roundToDouble 508 = 508"
  by code_simp+

text \<open>
  The doubles nearest to 5.2 and 0.2 differ by a little more than 5; their difference as
  the program computes it is the double 5.
\<close>

lemma rounded_difference:
  "doubleSub (5854679515581645 / 1125899906842624) (3602879701896397 / 18014398509481984) = 5"
  unfolding doubleSub_def by code_simp

lemma third_of_three:
  "roundToDouble (40 + roundToDouble (roundToDouble (1 / 3) * 50)) =
     7975124340135253 / 140737488355328"
  by code_simp

lemma two_thirds_of_three:
  "roundToDouble (40 + roundToDouble (roundToDouble (2 / 3) * 50)) =
     5160374573028693 / 70368744177664"
  by code_simp

lemma pageProgress_3:
  "pageProgress 3 (Suc 0) = 7975124340135253 / 140737488355328"
  "pageProgress 3 1 = 7975124340135253 / 140737488355328"
  "pageProgress 3 2 = 5160374573028693 / 70368744177664"
  "pageProgress 3 3 = 90"
  by (simp_all add: pageProgress_def doubleAdd_def doubleMul_def doubleDiv_def
      third_of_three two_thirds_of_three roundToDouble_1 roundToDouble_50 roundToDouble_90)

lemma second_of_max:
  "roundToDouble (40 + roundToDouble (roundToDouble (2 / 9007199254740991) * 50)) =
     2814749767106561 / 70368744177664"
  by code_simp

lemma third_of_max:
  "roundToDouble (40 + roundToDouble (roundToDouble (3 / 9007199254740991) * 50)) =
     2814749767106561 / 70368744177664"
  by code_simp

lemma pageProgress_max:
  "pageProgress 9007199254740991 2 = 2814749767106561 / 70368744177664"
  "pageProgress 9007199254740991 3 = 2814749767106561 / 70368744177664"
  by (simp_all add: pageProgress_def doubleAdd_def doubleMul_def doubleDiv_def
      second_of_max third_of_max)

section \<open>Basic facts\<close>

lemma js_simps: "js [] = []" "js (c # s) = of_char c # js s"
  by (simp_all add: js_def)

lemma processChars_append: "processChars acc s = acc @ s"
  by (induction s arbitrary: acc) (simp_all add: processChar_def)


lemma appendPage_append: "appendPage fullText k t = fullText @ appendPage [] k t"
  by (simp add: appendPage_def)

lemma detailedPage_eq:
  "detailedPage d opts k (ps, ft) = (ps @ [pageEntry d opts k], ft @ pageContribution d opts k)"
  by (simp add: detailedPage_def pageEntry_def pageContribution_def appendPage_append [of ft]
      split: sum.splits)

lemma detailedLoop_eq:
  "k \<le> Suc (numPages d) \<Longrightarrow>
   detailedLoop d opts k (ps, ft) =
     (ps @ map (pageEntry d opts) [k..<Suc (numPages d)],
      ft @ concat (map (pageContribution d opts) [k..<Suc (numPages d)]))"
proof (induction d opts k "(ps, ft)" arbitrary: ps ft rule: detailedLoop.induct)
  case (1 d opts k)
  show ?case
  proof (cases "k \<le> numPages d")
    case True
    have step: "detailedLoop d opts k (ps, ft) =
        detailedLoop d opts (k + 1) (ps @ [pageEntry d opts k], ft @ pageContribution d opts k)"
      using True by (subst detailedLoop.simps) (simp add: detailedPage_eq)
    have rest: "detailedLoop d opts (k + 1)
          (ps @ [pageEntry d opts k], ft @ pageContribution d opts k) =
        ((ps @ [pageEntry d opts k]) @ map (pageEntry d opts) [k + 1..<Suc (numPages d)],
         (ft @ pageContribution d opts k) @
           concat (map (pageContribution d opts) [k + 1..<Suc (numPages d)]))"
      using True by (intro "1.hyps") (simp_all add: detailedPage_eq)
    have upt: "[k..<Suc (numPages d)] = k # [k + 1..<Suc (numPages d)]"
      using True by (simp add: upt_conv_Cons)
    show ?thesis
      unfolding step rest upt by simp
  next
    case False
    with "1.prems" have "k = Suc (numPages d)" by simp
    then show ?thesis
      by (subst detailedLoop.simps) simp
  qed
qed

lemma extractDetailed_eq:
  assumes "fileToArrayBuffer env file = Inr b" and "getDocument env b = Inr d"
  shows "extractDetailedTextFromPDF env file options =
     Inr \<lparr>text = trim (concat (map (pageContribution d options) [1..<Suc (numPages d)])),
          metadata = extractMetadata d options,
          pages = map (pageEntry d options) [1..<Suc (numPages d)]\<rparr>"
  using assms by (simp add: extractDetailedTextFromPDF_def detailedLoop_eq)


lemma progressLoop_Inr:
  "progressLoop d opts n k (ft, cs) = (cs', Inr t) \<Longrightarrow> k \<le> Suc n \<Longrightarrow>
   map fst cs' = map fst cs @ map (pageProgress n) [k..<Suc n] \<and>
   t = ft @ concat (map (pageContribution d opts) [k..<Suc n])"
proof (induction d opts n k "(ft, cs)" arbitrary: ft cs rule: progressLoop.induct)
  case (1 d opts n k)
  show ?case
  proof (cases "k \<le> n")
    case True
    show ?thesis
    proof (cases "pageTextOf d opts k")
      case (Inl e)
      with True "1.prems" show ?thesis
        by (subst (asm) progressLoop.simps) simp
    next
      case (Inr pageText)
      let ?call = "(pageProgress n k,
                    js ''Processed page '' @ numberToString k @ js '' of '' @ numberToString n)"
      have run: "progressLoop d opts n (k + 1) (appendPage ft k pageText, cs @ [?call]) = (cs', Inr t)"
        using True Inr "1.prems"(1) by (subst (asm) progressLoop.simps) simp
      have ih: "map fst cs' = map fst (cs @ [?call]) @
            map (pageProgress n) [k + 1..<Suc n] \<and>
          t = appendPage ft k pageText @ concat (map (pageContribution d opts) [k + 1..<Suc n])"
        using True by (intro "1.hyps" [OF refl True Inr run]) simp
      have upt: "[k..<Suc n] = k # [k + 1..<Suc n]"
        using True by (simp add: upt_conv_Cons)
      have contrib: "pageContribution d opts k = appendPage [] k pageText"
        by (simp add: pageContribution_def Inr)
      show ?thesis
        unfolding upt using ih contrib appendPage_append [of ft k pageText] by simp
    qed
  next
    case False
    with "1.prems" have "k = Suc n" by simp
    with "1.prems"(1) show ?thesis
      by (subst (asm) progressLoop.simps) simp
  qed
qed

text \<open>A page that throws ends the loop of \<open>extractTextWithProgress\<close> with an error.\<close>

lemma progressLoop_Inl:
  "pageTextOf d opts j = Inl e \<Longrightarrow> k \<le> j \<Longrightarrow> j \<le> n \<Longrightarrow>
   \<exists>cs' e'. progressLoop d opts n k (ft, cs) = (cs', Inl e')"
proof (induction d opts n k "(ft, cs)" arbitrary: ft cs rule: progressLoop.induct)
  case (1 d opts n k)
  from "1.prems" have kn: "k \<le> n" by simp
  show ?case
  proof (cases "pageTextOf d opts k")
    case (Inl e0)
    with kn show ?thesis
      by (subst progressLoop.simps) simp
  next
    case (Inr pageText)
    with "1.prems" have "k \<noteq> j" by auto
    with "1.prems" have "k + 1 \<le> j" by simp
    from "1.hyps" [OF refl kn Inr "1.prems"(1) this "1.prems"(3)] kn Inr show ?thesis
      by (subst progressLoop.simps) simp
  qed
qed

lemmas eval_defs =
  js_simps processTextContent_def processItem_def processChars_append
  trim_def trimStart_def trimEnd_def isWhiteSpace_def endsWithSpace_def startsWithSpace_def
  cleanExtractedText_def trimLines_def isSpaceOrTab_def matchBreaks_def pageTextOf_def
  appendPage_def pageSeparator_def errorPlaceholder_def numberToString.simps
  fileToArrayBuffer_def extractMetadata_def infoField_def orUndefined_def
  validatePDFFile_def defaultOptions_def rethrow_def
  doubleAdd_def doubleSub_def roundToDouble_1 roundToDouble_10 roundToDouble_508 pageProgress_3

section \<open>Validation order\<close>

text \<open>
  Claim C6.  \<open>validatePDFFile\<close> checks, in this order: the file exists, its type is
  \<open>application/pdf\<close>, its size is at most 52,428,800 bytes, its size is not 0; the first
  rule that fails gives the reason.  A file of the wrong type is rejected for its type
  whatever its size, and a text file of 100 bytes is rejected with
  \<open>File must be a PDF document\<close>.
\<close>

theorem validatePDFFile_rule_order:
  "validatePDFFile None = \<lparr>isValid = False, error = Some (js ''No file provided'')\<rparr> \<and>
   (type f \<noteq> js ''application/pdf'' \<longrightarrow>
      validatePDFFile (Some f) =
        \<lparr>isValid = False, error = Some (js ''File must be a PDF document'')\<rparr>) \<and>
   (type f = js ''application/pdf'' \<and> size f > 52428800 \<longrightarrow>
      validatePDFFile (Some f) =
        \<lparr>isValid = False, error = Some (js ''File size must be less than 50MB'')\<rparr>) \<and>
   (type f = js ''application/pdf'' \<and> size f = 0 \<longrightarrow>
      validatePDFFile (Some f) =
        \<lparr>isValid = False, error = Some (js ''File appears to be empty'')\<rparr>) \<and>
   (type f = js ''application/pdf'' \<and> 0 < size f \<and> size f \<le> 52428800 \<longrightarrow>
      validatePDFFile (Some f) = \<lparr>isValid = True, error = None\<rparr>) \<and>
   validatePDFFile (Some \<lparr>type = js ''text/plain'', size = 100\<rparr>) =
     \<lparr>isValid = False, error = Some (js ''File must be a PDF document'')\<rparr>"
  by (simp add: validatePDFFile_def js_simps)

theorem validatePDFFile_rule_order_witness:
  "(type \<lparr>type = js ''text/plain'', size = 60000000\<rparr> \<noteq> js ''application/pdf'' \<and>
    size \<lparr>type = js ''text/plain'', size = 60000000\<rparr> > 52428800 \<and>
    validatePDFFile (Some \<lparr>type = js ''text/plain'', size = 60000000\<rparr>) =
      \<lparr>isValid = False, error = Some (js ''File must be a PDF document'')\<rparr>) \<and>
   (type \<lparr>type = js ''application/pdf'', size = 60000000\<rparr> = js ''application/pdf'' \<and>
    size \<lparr>type = js ''application/pdf'', size = 60000000\<rparr> > 52428800 \<and>
    validatePDFFile (Some \<lparr>type = js ''application/pdf'', size = 60000000\<rparr>) =
      \<lparr>isValid = False, error = Some (js ''File size must be less than 50MB'')\<rparr>) \<and>
   (type \<lparr>type = js ''application/pdf'', size = 0\<rparr> = js ''application/pdf'' \<and>
    size \<lparr>type = js ''application/pdf'', size = 0\<rparr> = 0 \<and>
    validatePDFFile (Some \<lparr>type = js ''application/pdf'', size = 0\<rparr>) =
      \<lparr>isValid = False, error = Some (js ''File appears to be empty'')\<rparr>) \<and>
   (type exampleFile = js ''application/pdf'' \<and> 0 < size exampleFile \<and>
    size exampleFile \<le> 52428800 \<and>
    validatePDFFile (Some exampleFile) = \<lparr>isValid = True, error = None\<rparr>)"
  using validatePDFFile_rule_order [of "\<lparr>type = js ''text/plain'', size = 60000000\<rparr>"]
    validatePDFFile_rule_order [of "\<lparr>type = js ''application/pdf'', size = 60000000\<rparr>"]
    validatePDFFile_rule_order [of "\<lparr>type = js ''application/pdf'', size = 0\<rparr>"]
    validatePDFFile_rule_order [of exampleFile]
  by (simp add: js_simps exampleFile_def)

section \<open>The reconstructor on two fragments of one line\<close>

text \<open>
  Claim C8.  A page with the fragment \<open>Hello\<close> at x = 0, y = 100 of width 10 and the
  fragment \<open>World\<close> at x = 11, y = 100, reconstructed with \<open>combineTextItems\<close> set, gives
  \<open>Hello World\<close>, whatever the other options and the width of the second fragment.
\<close>

theorem scenario_hello_world:
  "processTextContent
     (Some \<lparr>items = Some
        [\<lparr>str = js ''Hello'', transform4 = 0, transform5 = 100, width = Some 10\<rparr>,
         \<lparr>str = js ''World'', transform4 = 11, transform5 = 100, width = w\<rparr>]\<rparr>)
     \<lparr>preserveFormatting = pf, includeMetadata = im, combineTextItems = True\<rparr>
   = js ''Hello World''"
  by (simp add: eval_defs)

section \<open>The page list\<close>

text \<open>
  Claim C4.  When the file is read and the document loads, \<open>extractDetailedTextFromPDF\<close>
  resolves, and its page list has \<open>numPages\<close> entries whose page numbers are
  1, 2, ..., \<open>numPages\<close> in this order, whether the pages succeed or fail.
\<close>

theorem page_count_invariant:
  assumes "fileToArrayBuffer env file = Inr b" and "getDocument env b = Inr d"
  shows "\<exists>r. extractDetailedTextFromPDF env file options = Inr r \<and>
           length (pages r) = numPages d \<and>
           map pageNumber (pages r) = [1..<Suc (numPages d)]"
proof -
  have "pageNumber (pageEntry d options k) = k" for k
    by (simp add: pageEntry_def split: sum.splits)
  then have "map pageNumber (map (pageEntry d options) ks) = ks" for ks
    by (induction ks) simp_all
  then show ?thesis
    by (simp add: extractDetailed_eq [OF assms])
qed

theorem page_count_invariant_witness:
  "fileToArrayBuffer brokenEnv exampleFile = Inr [] \<and>
   getDocument brokenEnv [] = Inr brokenDocument \<and>
   (\<exists>r. extractDetailedTextFromPDF brokenEnv exampleFile defaultOptions = Inr r \<and>
        length (pages r) = 3 \<and> map pageNumber (pages r) = [1, 2, 3])"
proof -
  have 1: "fileToArrayBuffer brokenEnv exampleFile = Inr []"
    by (simp add: fileToArrayBuffer_def brokenEnv_def)
  have 2: "getDocument brokenEnv [] = Inr brokenDocument"
    by (simp add: brokenEnv_def)
  have 3: "numPages brokenDocument = 3"
    by (simp add: brokenDocument_def)
  have 4: "[1..<Suc 3] = [1, 2, 3]"
    by (simp add: upt_rec)
  show ?thesis
    using page_count_invariant [OF 1 2, of defaultOptions] 1 2 unfolding 3 4 by simp
qed

section \<open>Character counts\<close>

text \<open>
  Claim C5, as stated: every entry of the page list has \<open>characterCount\<close> equal to the
  length of its text, also the entries of pages that failed.  The document of one page
  that throws refutes it: its entry carries the placeholder of 35 characters and the
  count 0.
\<close>

theorem character_count_counterexample:
  "extractDetailedTextFromPDF failedPageEnv exampleFile defaultOptions =
     Inr \<lparr>text = [],
          metadata = Some \<lparr>pageCount = 1, title = None, author = None, subject = None,
            creator = None, producer = None, creationDate = None, modificationDate = None\<rparr>,
          pages = [\<lparr>pageNumber = 1, text = js ''[Error extracting text from page 1]'',
                    characterCount = 0\<rparr>]\<rparr> \<and>
   characterCount \<lparr>pageNumber = 1, text = js ''[Error extracting text from page 1]'',
                    characterCount = 0\<rparr> \<noteq>
   length (PageInfo.text \<lparr>pageNumber = 1, text = js ''[Error extracting text from page 1]'',
                    characterCount = 0\<rparr>)"
  by (simp add: extractDetailedTextFromPDF_def failedPageEnv_def failedPageDocument_def
      exampleFile_def detailedLoop.simps detailedPage_def eval_defs)

text \<open>
  Claim C5, amended.  In the page list of \<open>extractDetailedTextFromPDF\<close>, the entry of a
  page that was extracted has the page's text and \<open>characterCount\<close> equal to the length
  of that text; the entry of a page that threw has the placeholder as text and
  \<open>characterCount\<close> 0.
\<close>

theorem character_count_of_entries:
  assumes "fileToArrayBuffer env file = Inr b" and "getDocument env b = Inr d"
    and "extractDetailedTextFromPDF env file options = Inr r"
    and "k < numPages d"
  shows "(case pageTextOf d options (Suc k) of
            Inr pageText \<Rightarrow>
              PageInfo.text (pages r ! k) = pageText \<and>
              characterCount (pages r ! k) = length (PageInfo.text (pages r ! k))
          | Inl pageError \<Rightarrow>
              PageInfo.text (pages r ! k) = errorPlaceholder (Suc k) \<and>
              characterCount (pages r ! k) = 0)"
proof -
  have "pages r = map (pageEntry d options) [1..<Suc (numPages d)]"
    using assms(3) extractDetailed_eq [OF assms(1,2), of options]
    by (auto simp del: upt_Suc)
  moreover have "[1..<Suc (numPages d)] ! k = Suc k"
    using assms(4) by (simp add: nth_upt del: upt_Suc)
  ultimately have "pages r ! k = pageEntry d options (Suc k)"
    using assms(4) by (simp del: upt_Suc)
  then show ?thesis
    by (simp add: pageEntry_def split: sum.splits)
qed

theorem character_count_of_entries_witness:
  "fileToArrayBuffer brokenEnv exampleFile = Inr [] \<and>
   getDocument brokenEnv [] = Inr brokenDocument \<and>
   (\<exists>r. extractDetailedTextFromPDF brokenEnv exampleFile defaultOptions = Inr r \<and>
      (0::nat) < numPages brokenDocument \<and> 1 < numPages brokenDocument \<and>
      pageTextOf brokenDocument defaultOptions (Suc 0) = Inr (js ''A'') \<and>
      PageInfo.text (pages r ! 0) = js ''A'' \<and> characterCount (pages r ! 0) = 1 \<and>
      pageTextOf brokenDocument defaultOptions (Suc 1) = Inl (Error (js ''boom'')) \<and>
      PageInfo.text (pages r ! 1) = js ''[Error extracting text from page 2]'' \<and>
      characterCount (pages r ! 1) = 0)"
proof -
  have 1: "fileToArrayBuffer brokenEnv exampleFile = Inr []"
    by (simp add: fileToArrayBuffer_def brokenEnv_def)
  have 2: "getDocument brokenEnv [] = Inr brokenDocument"
    by (simp add: brokenEnv_def)
  obtain r where 3: "extractDetailedTextFromPDF brokenEnv exampleFile defaultOptions = Inr r"
    using extractDetailed_eq [OF 1 2] by blast
  have 4: "(0::nat) < numPages brokenDocument" "1 < numPages brokenDocument"
    by (simp_all add: brokenDocument_def)
  have 5: "pageTextOf brokenDocument defaultOptions (Suc 0) = Inr (js ''A'')"
    by (simp add: brokenDocument_def textPage_def eval_defs)
  have 6: "pageTextOf brokenDocument defaultOptions (Suc 1) = Inl (Error (js ''boom''))"
    by (simp add: brokenDocument_def textPage_def eval_defs)
  have 7: "errorPlaceholder (Suc 1) = js ''[Error extracting text from page 2]''"
    by (simp add: eval_defs)
  show ?thesis
    using character_count_of_entries [OF 1 2 3 4(1)] character_count_of_entries [OF 1 2 3 4(2)]
      1 2 3 4 5 6 7
    by (auto simp: js_simps)
qed

section \<open>A page that fails\<close>

text \<open>
  Claim C10.  In \<open>extractDetailedTextFromPDF\<close>, a page whose extraction throws leaves
  \<open>fullText\<close> as it was: the round of the loop only pushes the entry with the placeholder,
  and the page adds nothing, neither placeholder nor separator, to the text of the
  result, which is the trimmed concatenation of what the pages contribute.
\<close>

theorem failed_page_leaves_fullText:
  assumes "pageTextOf d options k = Inl pageError"
  shows "detailedPage d options k (pages0, fullText) =
           (pages0 @ [\<lparr>pageNumber = k, text = errorPlaceholder k, characterCount = 0\<rparr>],
            fullText) \<and>
         pageContribution d options k = [] \<and>
         (fileToArrayBuffer env file = Inr b \<and> getDocument env b = Inr d \<longrightarrow>
            (\<exists>r. extractDetailedTextFromPDF env file options = Inr r \<and>
               text r = trim (concat (map (pageContribution d options)
                                        [1..<Suc (numPages d)]))))"
  using assms
  by (auto simp: detailedPage_def pageContribution_def extractDetailed_eq simp del: upt_Suc)

theorem failed_page_leaves_fullText_witness:
  "pageTextOf brokenDocument defaultOptions 2 = Inl (Error (js ''boom'')) \<and>
   detailedPage brokenDocument defaultOptions 2 ([], js ''A'') =
     ([\<lparr>pageNumber = 2, text = js ''[Error extracting text from page 2]'',
        characterCount = 0\<rparr>], js ''A'') \<and>
   fileToArrayBuffer brokenEnv exampleFile = Inr [] \<and>
   getDocument brokenEnv [] = Inr brokenDocument \<and>
   (\<exists>r. extractDetailedTextFromPDF brokenEnv exampleFile defaultOptions = Inr r \<and>
      text r = js ''A'' @ [10, 10] @ js ''--- Page 3 ---'' @ [10, 10] @ js ''C'')"
proof -
  have 0: "pageTextOf brokenDocument defaultOptions 2 = Inl (Error (js ''boom''))"
    by (simp add: brokenDocument_def textPage_def eval_defs)
  have 1: "fileToArrayBuffer brokenEnv exampleFile = Inr []"
    by (simp add: fileToArrayBuffer_def brokenEnv_def)
  have 2: "getDocument brokenEnv [] = Inr brokenDocument"
    by (simp add: brokenEnv_def)
  have 3: "[1..<Suc (numPages brokenDocument)] = [1, 2, 3]"
    by (simp add: brokenDocument_def upt_rec)
  have 4: "pageContribution brokenDocument defaultOptions 1 = js ''A''"
    by (simp add: pageContribution_def brokenDocument_def textPage_def eval_defs)
  have 5: "pageContribution brokenDocument defaultOptions 3 =
      [10, 10] @ js ''--- Page 3 ---'' @ [10, 10] @ js ''C''"
    by (simp add: pageContribution_def brokenDocument_def textPage_def eval_defs)
  have 6: "errorPlaceholder 2 = js ''[Error extracting text from page 2]''"
    by (simp add: eval_defs)
  have 7: "trim (js ''A'' @ [10, 10] @ js ''--- Page 3 ---'' @ [10, 10] @ js ''C'') =
      js ''A'' @ [10, 10] @ js ''--- Page 3 ---'' @ [10, 10] @ js ''C''"
    by (simp add: eval_defs)
  show ?thesis
    using failed_page_leaves_fullText [OF 0, of "[]" "js ''A''" brokenEnv exampleFile "[]"]
      0 1 2 4 5 7
    unfolding 3 6 by auto
qed

section \<open>A page that throws under progress reporting\<close>

text \<open>
  Claim C1 on the document of three pages whose second page throws.
  \<open>extractDetailedTextFromPDF\<close> resolves, with the placeholder and the count 0 for page
  2 and with page 3 extracted.  \<open>extractTextWithProgress\<close> has no handler in its page
  loop: it rejects with the error of page 2, after the progress call of page 1.
\<close>

theorem progress_rejects_on_failed_page:
  "extractTextWithProgress brokenEnv exampleFile None =
     ([(10, js ''Validating PDF file...''), (20, js ''Loading PDF document...''),
       (30, js ''Parsing PDF structure...''), (40, js ''Processing 3 pages...''),
       (7975124340135253 / 140737488355328, js ''Processed page 1 of 3'')],
      Inl (Error (js ''PDF text extraction failed: boom''))) \<and>
   extractDetailedTextFromPDF brokenEnv exampleFile defaultOptions =
     Inr \<lparr>text = js ''A'' @ [10, 10] @ js ''--- Page 3 ---'' @ [10, 10] @ js ''C'',
          metadata = Some \<lparr>pageCount = 3, title = None, author = None, subject = None,
            creator = None, producer = None, creationDate = None, modificationDate = None\<rparr>,
          pages = [\<lparr>pageNumber = 1, text = js ''A'', characterCount = 1\<rparr>,
                   \<lparr>pageNumber = 2, text = js ''[Error extracting text from page 2]'',
                    characterCount = 0\<rparr>,
                   \<lparr>pageNumber = 3, text = js ''C'', characterCount = 1\<rparr>]\<rparr>"
  by (simp add: extractTextWithProgress_def extractDetailedTextFromPDF_def brokenEnv_def
      brokenDocument_def exampleFile_def textPage_def progressLoop.simps detailedLoop.simps
      detailedPage_def eval_defs)

section \<open>Fragments that trim to nothing\<close>

lemma trim_empty_iff: "trim s = [] \<longleftrightarrow> (\<forall>c \<in> set s. isWhiteSpace c)"
proof
  assume "trim s = []"
  then have all: "\<forall>x \<in> set (dropWhile isWhiteSpace s). isWhiteSpace x"
    by (simp add: trim_def trimStart_def trimEnd_def dropWhile_eq_Nil_conv)
  have "dropWhile isWhiteSpace s = []"
  proof (rule ccontr)
    assume ne: "dropWhile isWhiteSpace s \<noteq> []"
    then have "\<not> isWhiteSpace (hd (dropWhile isWhiteSpace s))"
      by (rule hd_dropWhile)
    with all ne show False
      by (simp add: hd_in_set)
  qed
  then show "\<forall>c \<in> set s. isWhiteSpace c"
    by (simp add: dropWhile_eq_Nil_conv)
next
  assume "\<forall>c \<in> set s. isWhiteSpace c"
  then have "dropWhile isWhiteSpace s = []"
    by (induction s) simp_all
  then show "trim s = []"
    by (simp only: trim_def trimStart_def trimEnd_def rev.simps dropWhile.simps)
qed

lemma processItem_blank:
  "\<forall>c \<in> set (str item). isWhiteSpace c \<Longrightarrow> processItem options i item st = st"
  by (cases st) (simp add: processItem_def trim_empty_iff [symmetric])

text \<open>
  The test \<open>i > 0\<close> of the combine rule only matters while \<open>lastY\<close> is \<open>null\<close>, and then
  the rule does not fire: the index of an item has no effect as long as it is positive
  whenever \<open>lastY\<close> is set.
\<close>

lemma processItem_index:
  "lastY = None \<or> (0 < i \<and> 0 < j) \<Longrightarrow>
   processItem options i item (t, lastY, lastX) = processItem options j item (t, lastY, lastX)"
  by (auto simp: processItem_def Let_def)

lemma processItems_index:
  "lastY = None \<or> (0 < i \<and> 0 < j) \<Longrightarrow>
   processItems options i its (t, lastY, lastX) = processItems options j its (t, lastY, lastX)"
proof (induction its arbitrary: i j t lastY lastX)
  case Nil
  show ?case by simp
next
  case (Cons item its)
  obtain t' lastY' lastX' where st: "processItem options i item (t, lastY, lastX) = (t', lastY', lastX')"
    by (cases "processItem options i item (t, lastY, lastX)") auto
  have same: "processItem options j item (t, lastY, lastX) = (t', lastY', lastX')"
    using processItem_index [OF Cons.prems, of options item t lastX] st by simp
  have "processItems options (i + 1) its (t', lastY', lastX') =
      processItems options (j + 1) its (t', lastY', lastX')"
    by (rule Cons.IH) simp
  then show ?case
    by (simp add: st same)
qed

lemma processItems_drop_blank:
  assumes "\<forall>c \<in> set (str item). isWhiteSpace c"
  shows "lastY = None \<or> (0 < i \<and> 0 < j) \<Longrightarrow>
    processItems options i (before @ item # after) (t, lastY, lastX) =
    processItems options j (before @ after) (t, lastY, lastX)"
proof (induction before arbitrary: i j t lastY lastX)
  case Nil
  have "processItems options (i + 1) after (t, lastY, lastX) =
      processItems options j after (t, lastY, lastX)"
    using Nil by (intro processItems_index) auto
  then show ?case
    by (simp add: processItem_blank [OF assms])
next
  case (Cons x before)
  obtain t' lastY' lastX' where st: "processItem options i x (t, lastY, lastX) = (t', lastY', lastX')"
    by (cases "processItem options i x (t, lastY, lastX)") auto
  have same: "processItem options j x (t, lastY, lastX) = (t', lastY', lastX')"
    using processItem_index [OF Cons.prems, of options x t lastX] st by simp
  have "processItems options (i + 1) (before @ item # after) (t', lastY', lastX') =
      processItems options (j + 1) (before @ after) (t', lastY', lastX')"
    by (rule Cons.IH) simp
  then show ?case
    by (simp add: st same)
qed

section \<open>Idempotence of the normalizer\<close>

subsection \<open>Trimming\<close>

lemma isWhiteSpace_10 [simp]: "isWhiteSpace 10"
  and isWhiteSpace_32 [simp]: "isWhiteSpace 32"
  and isWhiteSpace_9 [simp]: "isWhiteSpace 9"
  by (simp_all add: isWhiteSpace_def)

lemma trimStart_Nil [simp]: "trimStart [] = []"
  by (simp add: trimStart_def)

lemma trimEnd_Nil [simp]: "trimEnd [] = []"
  by (simp add: trimEnd_def)

lemma trimStart_Cons: "trimStart (c # cs) = (if isWhiteSpace c then trimStart cs else c # cs)"
  by (simp add: trimStart_def)

lemma trimStart_id: "s = [] \<or> \<not> isWhiteSpace (hd s) \<Longrightarrow> trimStart s = s"
  by (cases s) (simp_all add: trimStart_def)

lemma trimStart_head: "trimStart s = [] \<or> \<not> isWhiteSpace (hd (trimStart s))"
  unfolding trimStart_def using hd_dropWhile [of isWhiteSpace s] by blast

lemma trimEnd_append:
  "trimEnd (a @ b) = (if trimEnd b = [] then trimEnd a else a @ trimEnd b)"
  by (simp add: trimEnd_def dropWhile_append dropWhile_eq_Nil_conv)

lemma trimEnd_Cons:
  "trimEnd (c # cs) = (if trimEnd cs = [] then (if isWhiteSpace c then [] else [c]) else c # trimEnd cs)"
  using trimEnd_append [of "[c]" cs] by (simp add: trimEnd_def)

lemma trimEnd_idem: "trimEnd (trimEnd s) = trimEnd s"
  by (simp add: trimEnd_def)

lemma trimEnd_head:
  "s = [] \<or> \<not> isWhiteSpace (hd s) \<Longrightarrow> trimEnd s = [] \<or> \<not> isWhiteSpace (hd (trimEnd s))"
  by (cases s) (auto simp: trimEnd_Cons)

lemma trim_head: "trim s = [] \<or> \<not> isWhiteSpace (hd (trim s))"
  unfolding trim_def by (rule trimEnd_head) (rule trimStart_head)

lemma trim_idem: "trim (trim s) = trim s"
proof -
  have "trimStart (trim s) = trim s"
    by (rule trimStart_id) (rule trim_head)
  then show ?thesis
    by (simp add: trim_def trimEnd_idem)
qed

lemma trimStart_suffix: "\<exists>w. s = w @ trimStart s"
  unfolding trimStart_def by (metis takeWhile_dropWhile_id)

lemma trimEnd_prefix: "\<exists>w. s = trimEnd s @ w"
proof -
  have "rev s = takeWhile isWhiteSpace (rev s) @ dropWhile isWhiteSpace (rev s)"
    by simp
  then have "s = rev (dropWhile isWhiteSpace (rev s)) @ rev (takeWhile isWhiteSpace (rev s))"
    by (metis rev_append rev_rev_ident)
  then show ?thesis
    unfolding trimEnd_def by blast
qed

lemma trim_factor: "\<exists>u v. s = u @ trim s @ v"
proof -
  obtain u where u: "s = u @ trimStart s"
    using trimStart_suffix by blast
  obtain v where v: "trimStart s = trimEnd (trimStart s) @ v"
    using trimEnd_prefix by blast
  from u v have "s = u @ trim s @ v"
    by (simp add: trim_def)
  then show ?thesis by blast
qed

lemma set_trim: "set (trim s) \<subseteq> set s"
proof -
  obtain u v where "s = u @ trim s @ v"
    using trim_factor by blast
  then have "set s = set u \<union> set (trim s) \<union> set v"
    by (metis set_append sup_assoc)
  then show ?thesis by blast
qed


subsection \<open>Lines\<close>

lemma split_not_Nil [simp]: "split s \<noteq> []"
  by (induction s) (simp_all split: list.splits)

lemma split_line: "10 \<notin> set l \<Longrightarrow> split l = [l]"
  by (induction l) simp_all

lemma split_append: "10 \<notin> set l \<Longrightarrow> split (l @ 10 # r) = l # split r"
  by (induction l) simp_all

lemma join_Cons: "ls \<noteq> [] \<Longrightarrow> join (l # ls) = l @ 10 # join ls"
  by (cases ls) simp_all

lemma trimLines_line: "10 \<notin> set l \<Longrightarrow> trimLines l = trim l"
  by (simp add: trimLines_def split_line)

lemma trimLines_append:
  "10 \<notin> set l \<Longrightarrow> trimLines (l @ 10 # r) = trim l @ 10 # trimLines r"
  by (simp add: trimLines_def split_append join_Cons)

lemma line_induct [case_names line break]:
  assumes line: "\<And>l. 10 \<notin> set l \<Longrightarrow> P l"
    and break: "\<And>l r. 10 \<notin> set l \<Longrightarrow> P r \<Longrightarrow> P (l @ 10 # r)"
  shows "P (s :: jsstring)"
proof (induction s rule: length_induct)
  case (1 s)
  show ?case
  proof (cases "10 \<in> set s")
    case True
    then obtain l r where s: "s = l @ 10 # r" and l: "10 \<notin> set l"
      by (meson split_list_first)
    then have "length r < length s" by simp
    with 1 have "P r" by blast
    with l show ?thesis
      unfolding s by (rule break)
  next
    case False
    then show ?thesis by (rule line)
  qed
qed

lemma no_break_trim: "10 \<notin> set l \<Longrightarrow> 10 \<notin> set (trim l)"
  using set_trim by blast

lemma break_unique:
  assumes "10 \<notin> set a" and "10 \<notin> set a'" and "a @ 10 # b = a' @ 10 # b'"
  shows "a = a' \<and> b = b'"
  using assms
proof (induction a arbitrary: a')
  case Nil
  then show ?case by (cases a') auto
next
  case (Cons x a)
  then show ?case by (cases a') auto
qed

lemma trimLines_idem: "trimLines (trimLines s) = trimLines s"
proof (induction s rule: line_induct)
  case (line l)
  then show ?case
    by (simp add: trimLines_line no_break_trim trim_idem)
next
  case (break l r)
  then show ?case
    by (simp add: trimLines_append no_break_trim trim_idem)
qed

text \<open>A string whose lines are trimmed keeps this property when it is trimmed.\<close>

lemma trimLines_trimStart:
  "trimLines s = s \<Longrightarrow> trimLines (trimStart s) = trimStart s"
proof (induction s rule: line_induct)
  case (line l)
  then have "trim l = l"
    by (simp add: trimLines_line)
  then have "trimStart l = l"
    using trim_head [of l] by (simp add: trimStart_id)
  with line show ?case by simp
next
  case (break l r)
  from break.prems break.hyps have fixed: "trim l = l \<and> trimLines r = r"
    by (intro break_unique [of "trim l" l "trimLines r" r])
      (simp_all add: no_break_trim trimLines_append)
  show ?case
  proof (cases l)
    case Nil
    with fixed break.IH show ?thesis
      by (simp add: trimStart_Cons)
  next
    case (Cons c cs)
    with fixed trim_head [of l] have "trimStart (l @ 10 # r) = l @ 10 # r"
      by (intro trimStart_id) auto
    with break.prems show ?thesis by simp
  qed
qed

lemma trimLines_trimEnd:
  "trimLines s = s \<Longrightarrow> trimLines (trimEnd s) = trimEnd s"
proof (induction s rule: line_induct)
  case (line l)
  then have l: "trim l = l"
    by (simp add: trimLines_line)
  then have "trimEnd l = l"
    by (metis trimEnd_idem trim_def)
  with line show ?case by simp
next
  case (break l r)
  from break.prems break.hyps have fixed: "trim l = l \<and> trimLines r = r"
    by (intro break_unique [of "trim l" l "trimLines r" r])
      (simp_all add: no_break_trim trimLines_append)
  then have l: "trimEnd l = l"
    by (metis trimEnd_idem trim_def)
  show ?case
  proof (cases "trimEnd r = []")
    case True
    then have "trimEnd (l @ 10 # r) = l"
      by (simp add: trimEnd_append trimEnd_Cons l)
    with break.hyps fixed show ?thesis
      by (simp add: trimLines_line)
  next
    case False
    then have "trimEnd (l @ 10 # r) = l @ 10 # trimEnd r"
      by (simp add: trimEnd_append trimEnd_Cons)
    with break.hyps break.IH fixed show ?thesis
      by (simp add: trimLines_append)
  qed
qed

lemma trimLines_trim: "trimLines s = s \<Longrightarrow> trimLines (trim s) = trim s"
  unfolding trim_def by (intro trimLines_trimEnd trimLines_trimStart)


subsection \<open>Collapsed spaces\<close>

lemma spacesCollapsed_Cons:
  "spacesCollapsed (c # t) \<longleftrightarrow>
     c \<noteq> 9 \<and> (t \<noteq> [] \<longrightarrow> \<not> (c = 32 \<and> hd t = 32)) \<and> spacesCollapsed t"
  by (cases t) auto

lemma spacesCollapsed_append:
  "spacesCollapsed (a @ b) \<longleftrightarrow>
     spacesCollapsed a \<and> spacesCollapsed b \<and>
     (a \<noteq> [] \<and> b \<noteq> [] \<longrightarrow> \<not> (last a = 32 \<and> hd b = 32))"
proof (induction a)
  case Nil
  show ?case by simp
next
  case (Cons c a)
  show ?case
  proof (cases "a = []")
    case True
    then show ?thesis
      by (auto simp: spacesCollapsed_Cons)
  next
    case False
    then show ?thesis
      by (auto simp: spacesCollapsed_Cons Cons.IH)
  qed
qed

lemma collapseSpaces_head:
  "s = [] \<or> \<not> isSpaceOrTab (hd s) \<Longrightarrow>
   collapseSpaces s = [] \<or> hd (collapseSpaces s) \<noteq> 32"
  by (cases s) (auto simp: isSpaceOrTab_def)

lemma spacesCollapsed_collapseSpaces: "spacesCollapsed (collapseSpaces s)"
proof (induction s rule: collapseSpaces.induct)
  case 1
  show ?case by simp
next
  case (2 c cs)
  show ?case
  proof (cases "isSpaceOrTab c")
    case True
    have "dropWhile isSpaceOrTab cs = [] \<or> \<not> isSpaceOrTab (hd (dropWhile isSpaceOrTab cs))"
      using hd_dropWhile [of isSpaceOrTab cs] by blast
    then have "collapseSpaces (dropWhile isSpaceOrTab cs) = [] \<or>
        hd (collapseSpaces (dropWhile isSpaceOrTab cs)) \<noteq> 32"
      by (rule collapseSpaces_head)
    with True "2.IH"(1) show ?thesis
      by (auto simp: spacesCollapsed_Cons)
  next
    case False
    with "2.IH"(2) show ?thesis
      by (auto simp: spacesCollapsed_Cons isSpaceOrTab_def)
  qed
qed

lemma collapseSpaces_id: "spacesCollapsed s \<Longrightarrow> collapseSpaces s = s"
proof (induction s rule: spacesCollapsed.induct)
  case 1
  show ?case by simp
next
  case (2 c)
  then show ?case by (simp add: isSpaceOrTab_def)
next
  case (3 a b cs)
  then have b: "b \<noteq> 9" and ab: "\<not> (a = 32 \<and> b = 32)" and a: "a \<noteq> 9"
    by (auto simp: spacesCollapsed_Cons)
  from 3 have rest: "collapseSpaces (b # cs) = b # cs" by simp
  show ?case
  proof (cases "isSpaceOrTab a")
    case True
    with a ab b have "\<not> isSpaceOrTab b"
      by (auto simp: isSpaceOrTab_def)
    then have "dropWhile isSpaceOrTab (b # cs) = b # cs" by simp
    with True a rest show ?thesis
      by (simp add: isSpaceOrTab_def)
  next
    case False
    with rest show ?thesis by simp
  qed
qed


subsection \<open>The matcher\<close>

lemma breakTail_Nil [simp]: "breakTail [] = None"
  by (simp add: breakTail_def)

lemma breakTail_Cons:
  "breakTail (x # xs) =
     (if isWhiteSpace x
      then (case breakTail xs of Some r \<Rightarrow> Some r | None \<Rightarrow> if x = 10 then Some xs else None)
      else None)"
  by (auto simp: breakTail_def split: option.splits)

lemma breakPair_Nil [simp]: "breakPair [] = None"
  by (simp add: breakPair_def)

lemma breakPair_Cons:
  "breakPair (x # xs) =
     (if isWhiteSpace x
      then (case breakPair xs of Some r \<Rightarrow> Some r | None \<Rightarrow> if x = 10 then breakTail xs else None)
      else None)"
  by (auto simp: breakPair_def split: option.splits)

lemma matchBreaks_Nil [simp]: "matchBreaks [] = None"
  by (simp add: matchBreaks_def)

lemma matchBreaks_Cons: "matchBreaks (c # cs) = (if c = 10 then breakPair cs else None)"
  by (simp add: matchBreaks_def breakPair_def breakTail_def)

lemma breakTail_None: "breakTail s = None \<longleftrightarrow> leadingBreaks s = 0"
  by (induction s) (auto simp: breakTail_Cons split: option.splits)

lemma breakTail_Some:
  "breakTail s = Some r \<Longrightarrow> leadingBreaks r = 0 \<and> (\<exists>w. s = w @ r)"
proof (induction s)
  case Nil
  then show ?case by simp
next
  case (Cons x xs)
  show ?case
  proof (cases "breakTail xs")
    case None
    with Cons.prems have "x = 10" and "r = xs"
      by (auto simp: breakTail_Cons split: if_splits)
    with None show ?thesis
      by (auto simp: breakTail_None)
  next
    case (Some r')
    with Cons.prems have "r' = r"
      by (auto simp: breakTail_Cons split: if_splits)
    with Some Cons.IH obtain w where "leadingBreaks r = 0" and "xs = w @ r"
      by blast
    then have "leadingBreaks r = 0 \<and> x # xs = (x # w) @ r" by simp
    then show ?thesis by blast
  qed
qed

lemma breakPair_None: "breakPair s = None \<longleftrightarrow> leadingBreaks s \<le> 1"
  by (induction s) (auto simp: breakPair_Cons breakTail_None split: option.splits)

lemma breakPair_Some:
  "breakPair s = Some r \<Longrightarrow> leadingBreaks r = 0 \<and> (\<exists>w. s = w @ r)"
proof (induction s)
  case Nil
  then show ?case by simp
next
  case (Cons x xs)
  show ?case
  proof (cases "breakPair xs")
    case None
    with Cons.prems have "breakTail xs = Some r"
      by (auto simp: breakPair_Cons split: if_splits)
    then obtain w where "leadingBreaks r = 0" and "xs = w @ r"
      using breakTail_Some by blast
    then have "leadingBreaks r = 0 \<and> x # xs = (x # w) @ r" by simp
    then show ?thesis by blast
  next
    case (Some r')
    with Cons.prems have "r' = r"
      by (auto simp: breakPair_Cons split: if_splits)
    with Some Cons.IH obtain w where "leadingBreaks r = 0" and "xs = w @ r"
      by blast
    then have "leadingBreaks r = 0 \<and> x # xs = (x # w) @ r" by simp
    then show ?thesis by blast
  qed
qed

subsection \<open>Collapsed line breaks\<close>

lemma replaceBreaks_Cons:
  "replaceBreaks (c # cs) =
     (if c = 10 \<and> 2 \<le> leadingBreaks cs then 10 # 10 # replaceBreaks (the (breakPair cs))
      else c # replaceBreaks cs)"
proof (cases "c = 10 \<and> 2 \<le> leadingBreaks cs")
  case True
  then have "breakPair cs \<noteq> None"
    by (simp add: breakPair_None)
  with True show ?thesis
    by (auto simp: matchBreaks_Cons)
next
  case False
  then have "matchBreaks (c # cs) = None"
    by (auto simp: matchBreaks_Cons breakPair_None)
  with False show ?thesis by auto
qed

lemma replaceBreaks_head: "replaceBreaks s = [] \<longleftrightarrow> s = []" "s \<noteq> [] \<Longrightarrow> hd (replaceBreaks s) = hd s"
  by (cases s; simp add: replaceBreaks_Cons del: replaceBreaks.simps(2))+

lemma leadingBreaks_replaceBreaks: "leadingBreaks (replaceBreaks s) \<le> leadingBreaks s"
proof (induction s rule: replaceBreaks.induct)
  case 1
  show ?case by simp
next
  case (2 c cs)
  show ?case
  proof (cases "matchBreaks (c # cs)")
    case None
    with "2.IH"(1) show ?thesis by simp
  next
    case (Some r)
    then have c: "c = 10" and pair: "breakPair cs = Some r"
      by (auto simp: matchBreaks_Cons split: if_splits)
    from pair have "2 \<le> leadingBreaks cs"
      using breakPair_None [of cs] by simp
    moreover from pair have "leadingBreaks r = 0"
      using breakPair_Some by blast
    with "2.IH"(2) [OF Some] have "leadingBreaks (replaceBreaks r) = 0" by simp
    ultimately show ?thesis
      using Some c by simp
  qed
qed

lemma breaksCollapsed_replaceBreaks: "breaksCollapsed (replaceBreaks s)"
proof (induction s rule: replaceBreaks.induct)
  case 1
  show ?case by simp
next
  case (2 c cs)
  show ?case
  proof (cases "matchBreaks (c # cs)")
    case None
    then have "c = 10 \<longrightarrow> leadingBreaks cs \<le> 1"
      by (auto simp: matchBreaks_Cons breakPair_None)
    then have "c = 10 \<longrightarrow> leadingBreaks (replaceBreaks cs) \<le> 1"
      using leadingBreaks_replaceBreaks [of cs] by linarith
    with None "2.IH"(1) show ?thesis by simp
  next
    case (Some r)
    then have pair: "breakPair cs = Some r"
      by (auto simp: matchBreaks_Cons split: if_splits)
    then have "leadingBreaks r = 0"
      using breakPair_Some by blast
    then have "leadingBreaks (replaceBreaks r) = 0"
      using leadingBreaks_replaceBreaks [of r] by simp
    with Some "2.IH"(2) [OF Some] show ?thesis by simp
  qed
qed

lemma replaceBreaks_id: "breaksCollapsed s \<Longrightarrow> replaceBreaks s = s"
proof (induction s)
  case Nil
  show ?case by simp
next
  case (Cons c cs)
  then have "matchBreaks (c # cs) = None"
    by (auto simp: matchBreaks_Cons breakPair_None)
  with Cons show ?case by simp
qed

lemma spacesCollapsed_replaceBreaks: "spacesCollapsed s \<Longrightarrow> spacesCollapsed (replaceBreaks s)"
proof (induction s rule: replaceBreaks.induct)
  case 1
  show ?case by simp
next
  case (2 c cs)
  show ?case
  proof (cases "matchBreaks (c # cs)")
    case None
    have eq: "replaceBreaks (c # cs) = c # replaceBreaks cs"
      using None by simp
    from "2.prems" have "spacesCollapsed cs"
      by (simp add: spacesCollapsed_Cons)
    with "2.IH"(1) [OF None] "2.prems" show ?thesis
      unfolding eq spacesCollapsed_Cons [of c] using replaceBreaks_head [of cs] by auto
  next
    case (Some r)
    then have "breakPair cs = Some r"
      by (auto simp: matchBreaks_Cons split: if_splits)
    then obtain w where "cs = w @ r"
      using breakPair_Some by blast
    with "2.prems" have "spacesCollapsed r"
      by (simp add: spacesCollapsed_Cons spacesCollapsed_append)
    with "2.IH"(2) [OF Some] Some show ?thesis
      by (simp add: spacesCollapsed_Cons)
  qed
qed


lemma breaksCollapsed_line: "10 \<notin> set s \<Longrightarrow> breaksCollapsed s"
  by (induction s) simp_all

lemma breaksCollapsed_after_line:
  "10 \<notin> set a \<Longrightarrow> breaksCollapsed (a @ b) = breaksCollapsed b"
  by (induction a) simp_all

lemma leadingBreaks_prefix: "leadingBreaks a \<le> leadingBreaks (a @ b)"
  by (induction a) simp_all

lemma breaksCollapsed_append:
  "breaksCollapsed (a @ b) \<Longrightarrow> breaksCollapsed a \<and> breaksCollapsed b"
proof (induction a)
  case Nil
  then show ?case by simp
next
  case (Cons c a)
  moreover have "leadingBreaks a \<le> leadingBreaks (a @ b)"
    by (rule leadingBreaks_prefix)
  ultimately show ?case by auto
qed

lemma leadingBreaks_blank_line:
  "\<forall>c \<in> set l. isWhiteSpace c \<Longrightarrow> 10 \<notin> set l \<Longrightarrow> leadingBreaks (l @ t) = leadingBreaks t"
  by (induction l) simp_all

lemma leadingBreaks_text: "s \<noteq> [] \<Longrightarrow> \<not> isWhiteSpace (hd s) \<Longrightarrow> leadingBreaks (s @ t) = 0"
  by (cases s) simp_all

lemma leadingBreaks_trimLines: "leadingBreaks (trimLines s) \<le> leadingBreaks s"
proof (induction s rule: line_induct)
  case (line l)
  have "leadingBreaks (trim l) = 0"
    using trim_head [of l] leadingBreaks_text [of "trim l" "[]"]
    by (cases "trim l = []") simp_all
  with line show ?case
    by (simp add: trimLines_line)
next
  case (break l r)
  show ?case
  proof (cases "trim l = []")
    case True
    then have "\<forall>c \<in> set l. isWhiteSpace c"
      by (simp add: trim_empty_iff)
    with break.hyps have "leadingBreaks (l @ 10 # r) = 1 + leadingBreaks r"
      by (simp add: leadingBreaks_blank_line)
    with True break show ?thesis
      by (simp add: trimLines_append)
  next
    case False
    with trim_head [of l] have "leadingBreaks (trim l @ 10 # trimLines r) = 0"
      by (intro leadingBreaks_text) auto
    with break.hyps show ?thesis
      by (simp add: trimLines_append)
  qed
qed

lemma breaksCollapsed_trimLines: "breaksCollapsed s \<Longrightarrow> breaksCollapsed (trimLines s)"
proof (induction s rule: line_induct)
  case (line l)
  then show ?case
    by (simp add: trimLines_line breaksCollapsed_line no_break_trim)
next
  case (break l r)
  from break.prems break.hyps have r: "leadingBreaks r \<le> 1" "breaksCollapsed r"
    by (simp_all add: breaksCollapsed_after_line)
  from r(1) have "leadingBreaks (trimLines r) \<le> 1"
    using leadingBreaks_trimLines [of r] by linarith
  with break.IH [OF r(2)] break.hyps show ?case
    by (simp add: trimLines_append breaksCollapsed_after_line no_break_trim)
qed

lemma breaksCollapsed_trim: "breaksCollapsed s \<Longrightarrow> breaksCollapsed (trim s)"
proof -
  assume s: "breaksCollapsed s"
  obtain u v where "s = u @ trim s @ v"
    using trim_factor by blast
  with s have "breaksCollapsed (u @ trim s @ v)" by simp
  then show ?thesis
    using breaksCollapsed_append by blast
qed

lemma spacesCollapsed_trim: "spacesCollapsed s \<Longrightarrow> spacesCollapsed (trim s)"
proof -
  assume s: "spacesCollapsed s"
  obtain u v where "s = u @ trim s @ v"
    using trim_factor by blast
  with s have "spacesCollapsed (u @ trim s @ v)" by simp
  then show ?thesis
    by (simp add: spacesCollapsed_append)
qed

lemma spacesCollapsed_trimLines: "spacesCollapsed s \<Longrightarrow> spacesCollapsed (trimLines s)"
proof (induction s rule: line_induct)
  case (line l)
  then show ?case
    by (simp add: trimLines_line spacesCollapsed_trim)
next
  case (break l r)
  from break.prems have "spacesCollapsed l" and "spacesCollapsed r"
    by (simp_all add: spacesCollapsed_append spacesCollapsed_Cons)
  with break.IH break.hyps show ?case
    by (simp add: trimLines_append spacesCollapsed_append spacesCollapsed_Cons
        spacesCollapsed_trim)
qed

text \<open>
  Claim C2.  \<open>cleanExtractedText\<close> is idempotent: cleaning a cleaned string gives the
  same string.
\<close>

theorem cleanExtractedText_idempotent:
  "cleanExtractedText (cleanExtractedText s) = cleanExtractedText s"
proof -
  define y where "y = replaceBreaks (collapseSpaces s)"
  define z where "z = trim (trimLines y)"
  have "spacesCollapsed y"
    unfolding y_def by (intro spacesCollapsed_replaceBreaks spacesCollapsed_collapseSpaces)
  then have spaces: "spacesCollapsed z"
    unfolding z_def by (intro spacesCollapsed_trim spacesCollapsed_trimLines)
  have "breaksCollapsed y"
    unfolding y_def by (rule breaksCollapsed_replaceBreaks)
  then have breaks: "breaksCollapsed z"
    unfolding z_def by (intro breaksCollapsed_trim breaksCollapsed_trimLines)
  have lines: "trimLines z = z"
    unfolding z_def by (intro trimLines_trim trimLines_idem)
  have ends: "trim z = z"
    unfolding z_def by (rule trim_idem)
  have "cleanExtractedText z = z"
    by (simp add: cleanExtractedText_def collapseSpaces_id [OF spaces]
        replaceBreaks_id [OF breaks] lines ends)
  moreover have "cleanExtractedText s = z"
    by (simp add: cleanExtractedText_def y_def z_def)
  ultimately show ?thesis by simp
qed

section \<open>Progress\<close>

lemma progressLoop_total:
  "(\<And>j. k \<le> j \<Longrightarrow> j \<le> n \<Longrightarrow> \<exists>t. pageTextOf d opts j = Inr t) \<Longrightarrow>
   \<exists>cs' t. progressLoop d opts n k (ft, cs) = (cs', Inr t)"
proof (induction d opts n k "(ft, cs)" arbitrary: ft cs rule: progressLoop.induct)
  case (1 d opts n k)
  show ?case
  proof (cases "k \<le> n")
    case True
    with "1.prems" obtain pageText where Inr: "pageTextOf d opts k = Inr pageText" by blast
    have "\<exists>cs' t. progressLoop d opts n (k + 1) (appendPage ft k pageText,
        cs @ [(pageProgress n k,
               js ''Processed page '' @ numberToString k @ js '' of '' @ numberToString n)]) =
        (cs', Inr t)"
      using "1.prems" by (intro "1.hyps" [OF refl True Inr]) simp
    with True Inr show ?thesis
      by (subst progressLoop.simps) simp
  next
    case False
    then show ?thesis
      by (subst progressLoop.simps) simp
  qed
qed

text \<open>
  A run of \<open>extractTextWithProgress\<close> in which the file is valid, the document loads and
  every page is extracted: it resolves, with these percentages and this text.
\<close>

lemma extractTextWithProgress_resolves:
  assumes valid: "isValid (validatePDFFile (Some file))"
    and load: "fileToArrayBuffer env file = Inr b" "getDocument env b = Inr d"
    and opts: "opts = (case optionsOrNone of None \<Rightarrow> defaultOptions | Some given \<Rightarrow> given)"
    and pages: "\<And>j. 1 \<le> j \<Longrightarrow> j \<le> numPages d \<Longrightarrow> \<exists>t. pageTextOf d opts j = Inr t"
  shows "\<exists>calls. extractTextWithProgress env file optionsOrNone =
           (calls, Inr (trim (concat (map (pageContribution d opts) [1..<Suc (numPages d)])))) \<and>
         map fst calls =
           [10, 20, 30, 40] @ map (pageProgress (numPages d)) [1..<Suc (numPages d)] @ [95, 100]"
proof -
  let ?calls4 = "[(10, js ''Validating PDF file...''), (20, js ''Loading PDF document...''),
       (30, js ''Parsing PDF structure...''),
       (40, js ''Processing '' @ numberToString (numPages d) @ js '' pages...'')]"
  obtain calls5 fullText where
    loop: "progressLoop d opts (numPages d) 1 ([], ?calls4) = (calls5, Inr fullText)"
    using progressLoop_total [of 1 "numPages d" d opts "[]" ?calls4] pages by blast
  from progressLoop_Inr [OF loop] have
    calls5: "map fst calls5 = [10, 20, 30, 40] @ map (pageProgress (numPages d)) [1..<Suc (numPages d)]"
    and fullText: "fullText = concat (map (pageContribution d opts) [1..<Suc (numPages d)])"
    by simp_all
  have "extractTextWithProgress env file optionsOrNone =
      (calls5 @ [(95, js ''Finalizing text extraction...''), (100, js ''Text extraction completed'')],
       Inr (trim fullText))"
    using valid load loop by (simp add: extractTextWithProgress_def opts)
  with calls5 fullText show ?thesis
    by simp
qed

lemma progress_percents_nondecreasing:
  assumes "1 \<le> n"
  shows "sorted_wrt (\<le>) ([10, 20, 30, 40] @ map (pageProgress n) [1..<Suc n] @ [95, 100])"
proof -
  have "sorted_wrt (\<le>) [1..<Suc n]"
    using sorted_wrt_mono_rel [OF _ sorted_wrt_upt [of 1 "Suc n"], of "(\<le>)"] by simp
  then have "sorted_wrt (\<lambda>j k. pageProgress n j \<le> pageProgress n k) [1..<Suc n]"
    by (rule sorted_wrt_mono_rel [rotated]) (auto intro!: pageProgress_mono)
  then have pages: "sorted_wrt (\<le>) (map (pageProgress n) [1..<Suc n])"
    by (simp only: sorted_wrt_map)
  have bounds: "40 \<le> y \<and> y \<le> 90" if "y \<in> set (map (pageProgress n) [1..<Suc n])" for y
  proof -
    from that obtain k where "y = pageProgress n k" "1 \<le> k" "k \<le> n" by auto
    with pageProgress_bounds [of k n] show ?thesis by simp
  qed
  have mid: "sorted_wrt (\<le>) (map (pageProgress n) [1..<Suc n] @ [95, 100])"
    unfolding sorted_wrt_append using pages bounds by fastforce
  have "x \<le> y"
    if "x \<in> set [10, 20, 30, 40::rat]" "y \<in> set (map (pageProgress n) [1..<Suc n] @ [95, 100])"
    for x y
  proof -
    from that(2) have "40 \<le> y" using bounds by fastforce
    with that(1) show ?thesis by auto
  qed
  with mid show ?thesis
    unfolding sorted_wrt_append [of _ "[10, 20, 30, 40]"] by simp
qed

lemma progress_percents_increasing:
  assumes "1 \<le> n" and "n \<le> 2 ^ 50"
  shows "sorted_wrt (<) ([10, 20, 30, 40] @ map (pageProgress n) [1..<Suc n] @ [95, 100])"
proof -
  have "sorted_wrt (<) [1..<Suc n]" by (rule sorted_wrt_upt)
  then have "sorted_wrt (\<lambda>j k. pageProgress n j < pageProgress n k) [1..<Suc n]"
    using assms by (elim sorted_wrt_mono_rel [rotated]) (auto intro!: pageProgress_strict)
  then have pages: "sorted_wrt (<) (map (pageProgress n) [1..<Suc n])"
    by (simp only: sorted_wrt_map)
  have bounds: "40 < y \<and> y \<le> 90" if "y \<in> set (map (pageProgress n) [1..<Suc n])" for y
  proof -
    from that obtain k where "y = pageProgress n k" "1 \<le> k" "k \<le> n" by auto
    with pageProgress_bounds(2) [of k n] pageProgress_above_40 [of k n] assms show ?thesis by simp
  qed
  have mid: "sorted_wrt (<) (map (pageProgress n) [1..<Suc n] @ [95, 100])"
    unfolding sorted_wrt_append using pages bounds by fastforce
  have "x < y"
    if "x \<in> set [10, 20, 30, 40::rat]" "y \<in> set (map (pageProgress n) [1..<Suc n] @ [95, 100])"
    for x y
  proof -
    from that(2) have "40 < y" using bounds by fastforce
    with that(1) show ?thesis by auto
  qed
  with mid show ?thesis
    unfolding sorted_wrt_append [of _ "[10, 20, 30, 40]"] by simp
qed

lemma percent_of_second_and_third_page:
  assumes "3 \<le> n"
  shows "([10, 20, 30, 40] @ map f [1..<Suc n] @ [95, 100 :: rat]) ! 5 = f 2"
    and "([10, 20, 30, 40] @ map f [1..<Suc n] @ [95, 100 :: rat]) ! 6 = f 3"
  using assms by (simp_all add: nth_append nth_Cons' eval_nat_numeral del: upt_Suc)


lemma concat_map_empty: "(\<And>x. x \<in> set xs \<Longrightarrow> f x = []) \<Longrightarrow> concat (map f xs) = []"
  by (induction xs) simp_all

text \<open>
  Claim C3, as stated: the percentages are strictly increasing across successive pages
  for every page count n \<ge> 1.  The percentages are doubles.  On a document of
  9007199254740991 pages (the largest page count that a double counts exactly), all
  without text, \<open>extractTextWithProgress\<close> resolves, and the sixth and the seventh
  percentage, those of pages 2 and 3, are the same double, printed as
  40.000000000000014.
\<close>

theorem progress_collision_counterexample:
  "snd (extractTextWithProgress hugeEnv exampleFile None) = Inr [] \<and>
   map fst (fst (extractTextWithProgress hugeEnv exampleFile None)) ! 5 =
     2814749767106561 / 70368744177664 \<and>
   map fst (fst (extractTextWithProgress hugeEnv exampleFile None)) ! 6 =
     2814749767106561 / 70368744177664"
proof -
  define n where "n = numPages hugeDocument"
  have n: "n = 9007199254740991"
    by (simp add: n_def hugeDocument_def)
  have valid: "isValid (validatePDFFile (Some exampleFile))"
    by (simp add: validatePDFFile_def exampleFile_def)
  have load: "fileToArrayBuffer hugeEnv exampleFile = Inr []" "getDocument hugeEnv [] = Inr hugeDocument"
    by (simp_all add: fileToArrayBuffer_def hugeEnv_def)
  have page: "pageTextOf hugeDocument defaultOptions j = Inr []" for j
    by (simp add: hugeDocument_def eval_defs)
  then have contribution: "pageContribution hugeDocument defaultOptions j = []" for j
    by (simp add: pageContribution_def eval_defs)
  obtain calls where
    run: "extractTextWithProgress hugeEnv exampleFile None =
      (calls, Inr (trim (concat (map (pageContribution hugeDocument defaultOptions) [1..<Suc n]))))"
    and calls: "map fst calls = [10, 20, 30, 40] @ map (pageProgress n) [1..<Suc n] @ [95, 100]"
    using extractTextWithProgress_resolves [OF valid load, of defaultOptions None] page
    unfolding n_def by auto
  have empty: "concat (map (pageContribution hugeDocument defaultOptions) [1..<Suc n]) = []"
    by (rule concat_map_empty) (rule contribution)
  have "trim [] = []"
    by (simp add: trim_def trimStart_def trimEnd_def)
  with run have result: "extractTextWithProgress hugeEnv exampleFile None = (calls, Inr [])"
    unfolding empty by (simp only:)
  have "3 \<le> n" by (simp add: n)
  then have "map fst calls ! 5 = pageProgress n 2" and "map fst calls ! 6 = pageProgress n 3"
    unfolding calls by (rule percent_of_second_and_third_page)+
  then have "map fst calls ! 5 = 2814749767106561 / 70368744177664"
    and "map fst calls ! 6 = 2814749767106561 / 70368744177664"
    by (simp_all only: n pageProgress_max)
  with result show ?thesis
    by (simp only: fst_conv snd_conv simp_thms)
qed

text \<open>
  Claim C3, amended.  When \<open>extractTextWithProgress\<close> resolves on a document of n pages,
  1 \<le> n < 2^53, the percentages passed to \<open>onProgress\<close> are 10, 20, 30, 40, then for
  k = 1, ..., n the double that \<open>40 + (k / n) * 50\<close> evaluates to, each of the three
  operations rounded, then 95 and 100.  The sequence is non-decreasing and its last
  value is 100; it is strictly increasing when n is at most 2^50.
\<close>

theorem progress_sequence:
  assumes "fileToArrayBuffer env file = Inr b" and "getDocument env b = Inr d"
    and "1 \<le> numPages d" and "numPages d < 2 ^ 53"
    and "extractTextWithProgress env file optionsOrNone = (calls, Inr t)"
  shows "map fst calls =
           [10, 20, 30, 40] @
           map (\<lambda>k. roundToDouble (40 + roundToDouble
                       (roundToDouble (of_nat k / of_nat (numPages d)) * 50)))
             [1..<Suc (numPages d)] @
           [95, 100] \<and>
         sorted_wrt (\<le>) (map fst calls) \<and>
         (numPages d \<le> 2 ^ 50 \<longrightarrow> sorted_wrt (<) (map fst calls)) \<and>
         last (map fst calls) = 100"
proof -
  let ?opts = "case optionsOrNone of None \<Rightarrow> defaultOptions | Some opts \<Rightarrow> opts"
  from assms(5) assms(1,2) obtain calls5 fullText where
    loop: "progressLoop d ?opts (numPages d) 1
       ([], [(10, js ''Validating PDF file...''), (20, js ''Loading PDF document...''),
             (30, js ''Parsing PDF structure...''),
             (40, js ''Processing '' @ numberToString (numPages d) @ js '' pages...'')]) =
       (calls5, Inr fullText)"
    and calls: "calls = calls5 @ [(95, js ''Finalizing text extraction...''),
                                  (100, js ''Text extraction completed'')]"
    by (auto simp: extractTextWithProgress_def Let_def
        split: if_splits prod.splits sum.splits)
  from progressLoop_Inr [OF loop] have "map fst calls5 =
      [10, 20, 30, 40] @ map (pageProgress (numPages d)) [1..<Suc (numPages d)]"
    by simp
  with calls have seq: "map fst calls =
      [10, 20, 30, 40] @ map (pageProgress (numPages d)) [1..<Suc (numPages d)] @ [95, 100]"
    by simp
  have percent: "pageProgress (numPages d) =
      (\<lambda>k. roundToDouble (40 + roundToDouble (roundToDouble (of_nat k / of_nat (numPages d)) * 50)))"
    by (rule ext) (simp add: pageProgress_def doubleAdd_def doubleMul_def doubleDiv_def)
  have "sorted_wrt (\<le>) (map fst calls)"
    unfolding seq by (rule progress_percents_nondecreasing [OF assms(3)])
  moreover have "sorted_wrt (<) (map fst calls)" if "numPages d \<le> 2 ^ 50"
    unfolding seq by (rule progress_percents_increasing [OF assms(3) that])
  moreover have "last (map fst calls) = 100"
    using calls by simp
  ultimately show ?thesis
    using seq unfolding percent by blast
qed

theorem progress_sequence_witness:
  "fileToArrayBuffer threePageEnv exampleFile = Inr [] \<and>
   getDocument threePageEnv [] = Inr threePageDocument \<and>
   1 \<le> numPages threePageDocument \<and>
   numPages threePageDocument < 2 ^ 53 \<and>
   numPages threePageDocument \<le> 2 ^ 50 \<and>
   snd (extractTextWithProgress threePageEnv exampleFile None) =
     Inr (js ''A'' @ [10, 10] @ js ''--- Page 2 ---'' @ [10, 10] @ js ''B'' @
          [10, 10] @ js ''--- Page 3 ---'' @ [10, 10] @ js ''C'') \<and>
   map fst (fst (extractTextWithProgress threePageEnv exampleFile None)) =
     [10, 20, 30, 40, 7975124340135253 / 140737488355328, 5160374573028693 / 70368744177664,
      90, 95, 100] \<and>
   sorted_wrt (<) (map fst (fst (extractTextWithProgress threePageEnv exampleFile None)))"
proof -
  have 1: "fileToArrayBuffer threePageEnv exampleFile = Inr []"
    by (simp add: fileToArrayBuffer_def threePageEnv_def)
  have 2: "getDocument threePageEnv [] = Inr threePageDocument"
    by (simp add: threePageEnv_def)
  have 3: "1 \<le> numPages threePageDocument" "numPages threePageDocument < 2 ^ 53"
    "numPages threePageDocument \<le> 2 ^ 50"
    by (simp_all add: threePageDocument_def)
  have 4: "snd (extractTextWithProgress threePageEnv exampleFile None) =
      Inr (js ''A'' @ [10, 10] @ js ''--- Page 2 ---'' @ [10, 10] @ js ''B'' @
           [10, 10] @ js ''--- Page 3 ---'' @ [10, 10] @ js ''C'')"
    by (simp add: extractTextWithProgress_def threePageEnv_def threePageDocument_def
        exampleFile_def textPage_def progressLoop.simps eval_defs)
  then have 5: "extractTextWithProgress threePageEnv exampleFile None =
      (fst (extractTextWithProgress threePageEnv exampleFile None),
       Inr (js ''A'' @ [10, 10] @ js ''--- Page 2 ---'' @ [10, 10] @ js ''B'' @
            [10, 10] @ js ''--- Page 3 ---'' @ [10, 10] @ js ''C''))"
    by (metis prod.collapse)
  have 6: "map (\<lambda>k. roundToDouble (40 + roundToDouble
        (roundToDouble (of_nat k / of_nat (numPages threePageDocument)) * 50)))
        [1..<Suc (numPages threePageDocument)] =
      [7975124340135253 / 140737488355328, 5160374573028693 / 70368744177664, 90]"
    using pageProgress_3
    by (simp add: threePageDocument_def upt_rec pageProgress_def doubleAdd_def doubleMul_def
        doubleDiv_def)
  show ?thesis
    using progress_sequence [OF 1 2 3(1,2) 5] 1 2 3 4 unfolding 6 by simp
qed

section \<open>The page separator\<close>

lemma trimStart_append:
  "trimStart (a @ b) = (if trimStart a = [] then trimStart b else trimStart a @ b)"
  by (induction a) (simp_all add: trimStart_Cons)

lemma trimStart_empty_iff: "trimStart a = [] \<longleftrightarrow> trim a = []"
  by (simp add: trim_empty_iff trimStart_def dropWhile_eq_Nil_conv)

lemma trim_around:
  assumes "trim pageText \<noteq> []" and "trimEnd pageText = pageText"
  shows "trim (before @ pageSeparator N @ pageText @ after) =
     (if trim before = [] then js ''--- Page '' @ numberToString N @ js '' ---'' @ [10, 10]
      else trimStart before @ pageSeparator N) @ pageText @ trimEnd after"
proof -
  from assms(1) have ne: "pageText \<noteq> []"
    by (auto simp: trim_def)
  have tail: "trimEnd (pageText @ after) = pageText @ trimEnd after"
    using assms(2) by (simp add: trimEnd_append)
  with ne have tail_ne: "trimEnd (pageText @ after) \<noteq> []" by simp
  have sep: "trimStart (pageSeparator N @ rest) =
      (js ''--- Page '' @ numberToString N @ js '' ---'' @ [10, 10]) @ rest" for rest
    by (simp add: pageSeparator_def trimStart_Cons js_simps isWhiteSpace_def)
  show ?thesis
  proof (cases "trim before = []")
    case True
    then have "trimStart (before @ pageSeparator N @ pageText @ after) =
        trimStart (pageSeparator N @ pageText @ after)"
      by (simp add: trimStart_append [of before] trimStart_empty_iff)
    then have "trimStart (before @ pageSeparator N @ pageText @ after) =
        (js ''--- Page '' @ numberToString N @ js '' ---'' @ [10, 10]) @ pageText @ after"
      by (simp only: sep)
    then have "trim (before @ pageSeparator N @ pageText @ after) =
        (js ''--- Page '' @ numberToString N @ js '' ---'' @ [10, 10]) @ pageText @ trimEnd after"
      unfolding trim_def
      using tail tail_ne
      by (simp only: trimEnd_append [of _ "pageText @ after"] if_False)
    with True show ?thesis
      by simp
  next
    case False
    then have "trimStart (before @ pageSeparator N @ pageText @ after) =
        (trimStart before @ pageSeparator N) @ pageText @ after"
      by (simp add: trimStart_append [of before] trimStart_empty_iff)
    then have "trim (before @ pageSeparator N @ pageText @ after) =
        (trimStart before @ pageSeparator N) @ pageText @ trimEnd after"
      unfolding trim_def
      using tail tail_ne
      by (simp only: trimEnd_append [of _ "pageText @ after"] if_False)
    with False show ?thesis
      by simp
  qed
qed

lemma pageTextOf_trimmed: "pageTextOf d options k = Inr pageText \<Longrightarrow> trimEnd pageText = pageText"
proof -
  assume "pageTextOf d options k = Inr pageText"
  then obtain textContent where "pageText = processTextContent textContent options"
    by (auto simp: pageTextOf_def split: sum.splits)
  then have "pageText = [] \<or> (\<exists>z. pageText = trim z)"
    by (auto simp: processTextContent_def cleanExtractedText_def split: option.splits)
  then show ?thesis
    by (auto simp: trim_def trimEnd_idem)
qed

lemma contributions_around:
  assumes "1 < N" and "N \<le> n" and "pageTextOf d options N = Inr pageText"
    and "trim pageText \<noteq> []"
  shows "concat (map (pageContribution d options) [1..<Suc n]) =
     concat (map (pageContribution d options) [1..<N]) @ pageSeparator N @ pageText @
     concat (map (pageContribution d options) [Suc N..<Suc n])"
proof -
  from assms(1,2) have "[1..<N + (Suc n - N)] = [1..<N] @ [N..<N + (Suc n - N)]"
    by (intro upt_add_eq_append) simp
  moreover from assms(2) have "N + (Suc n - N) = Suc n" by simp
  moreover from assms(2) have "[N..<Suc n] = N # [Suc N..<Suc n]"
    by (simp add: upt_conv_Cons del: upt_Suc)
  ultimately have "[1..<Suc n] = [1..<N] @ N # [Suc N..<Suc n]"
    by (simp only:)
  moreover have "pageContribution d options N = pageSeparator N @ pageText"
    using assms by (simp add: pageContribution_def appendPage_def)
  ultimately show ?thesis
    by (simp del: upt_Suc)
qed


text \<open>
  Claim C7, as stated: in the assembled document text the marker of page N is the literal
  of two line breaks, \<open>--- Page N ---\<close> and two line breaks, and it stands only between
  the contributions of pages.  On a document of two pages whose first page has no text
  and whose second page has the text \<open>B\<close>, both \<open>extractDetailedTextFromPDF\<close> and
  \<open>extractTextWithProgress\<close> resolve with \<open>--- Page 2 ---\<close>, two line breaks and \<open>B\<close>: the
  final trim has taken the two leading line breaks, the literal marker is not part of
  the text, and what is left of it leads the text.
\<close>

theorem page_separator_counterexample:
  "extractDetailedTextFromPDF blankFirstEnv exampleFile defaultOptions =
     Inr \<lparr>text = js ''--- Page 2 ---'' @ [10, 10] @ js ''B'',
          metadata = Some \<lparr>pageCount = 2, title = None, author = None, subject = None,
            creator = None, producer = None, creationDate = None, modificationDate = None\<rparr>,
          pages = [\<lparr>pageNumber = 1, text = [], characterCount = 0\<rparr>,
                   \<lparr>pageNumber = 2, text = js ''B'', characterCount = 1\<rparr>]\<rparr> \<and>
   snd (extractTextWithProgress blankFirstEnv exampleFile None) =
     Inr (js ''--- Page 2 ---'' @ [10, 10] @ js ''B'') \<and>
   \<not> sublist (pageSeparator 2) (js ''--- Page 2 ---'' @ [10, 10] @ js ''B'')"
  by (simp add: extractTextWithProgress_def extractDetailedTextFromPDF_def blankFirstEnv_def
      blankFirstDocument_def exampleFile_def textPage_def progressLoop.simps detailedLoop.simps
      detailedPage_def eval_defs sublist_Cons_right)

text \<open>
  Claim C7, amended.  The separator of page N is the literal of two line breaks,
  \<open>--- Page N ---\<close> and two line breaks.  Both page loops write it to \<open>fullText\<close> exactly
  when N > 1 and the trimmed text of page N is not empty, directly before the text of
  page N, and never for page 1.  The text returned is the trimmed \<open>fullText\<close>: for a
  page N > 1 with text, the literal separator stands in it between what the earlier
  pages contributed and the text of page N when the earlier pages contributed something
  that is not blank; when they contributed nothing or blank text only, the text returned
  starts with \<open>--- Page N ---\<close> and two line breaks, without the two leading line breaks.
\<close>

theorem page_separator_placement:
  assumes "fileToArrayBuffer env file = Inr b" and "getDocument env b = Inr d"
    and "1 < N" and "N \<le> numPages d"
    and "pageTextOf d options N = Inr pageText" and "trim pageText \<noteq> []"
  shows "pageSeparator N = [10, 10] @ js ''--- Page '' @ numberToString N @ js '' ---'' @ [10, 10] \<and>
   appendPage fullText M anyText =
     fullText @ (if M > 1 \<and> trim anyText \<noteq> [] then pageSeparator M else []) @ anyText \<and>
   appendPage fullText 1 anyText = fullText @ anyText \<and>
   (\<exists>r. extractDetailedTextFromPDF env file options = Inr r \<and>
      text r =
        (if trim (concat (map (pageContribution d options) [1..<N])) = []
         then js ''--- Page '' @ numberToString N @ js '' ---'' @ [10, 10]
         else trimStart (concat (map (pageContribution d options) [1..<N])) @ pageSeparator N) @
        pageText @
        trimEnd (concat (map (pageContribution d options) [Suc N..<Suc (numPages d)]))) \<and>
   (\<forall>calls t. extractTextWithProgress env file (Some options) = (calls, Inr t) \<longrightarrow>
      t =
        (if trim (concat (map (pageContribution d options) [1..<N])) = []
         then js ''--- Page '' @ numberToString N @ js '' ---'' @ [10, 10]
         else trimStart (concat (map (pageContribution d options) [1..<N])) @ pageSeparator N) @
        pageText @
        trimEnd (concat (map (pageContribution d options) [Suc N..<Suc (numPages d)])))"
proof -
  let ?before = "concat (map (pageContribution d options) [1..<N])"
  let ?after = "concat (map (pageContribution d options) [Suc N..<Suc (numPages d)])"
  let ?text = "(if trim ?before = []
         then js ''--- Page '' @ numberToString N @ js '' ---'' @ [10, 10]
         else trimStart ?before @ pageSeparator N) @ pageText @ trimEnd ?after"
  have whole: "trim (concat (map (pageContribution d options) [1..<Suc (numPages d)])) = ?text"
    unfolding contributions_around [OF assms(3-6)]
    by (rule trim_around [OF assms(6) pageTextOf_trimmed [OF assms(5)]])
  have detailed: "\<exists>r. extractDetailedTextFromPDF env file options = Inr r \<and> text r = ?text"
    using whole by (simp add: extractDetailed_eq [OF assms(1,2)] del: upt_Suc)
  have progress: "t = ?text"
    if run: "extractTextWithProgress env file (Some options) = (calls, Inr t)" for calls t
  proof -
    from run assms(1,2) obtain calls4 calls5 fullText where
      loop: "progressLoop d options (numPages d) 1 ([], calls4) = (calls5, Inr fullText)"
      and t: "t = trim fullText"
      by (auto simp: extractTextWithProgress_def Let_def
          split: if_splits prod.splits sum.splits)
    from progressLoop_Inr [OF loop] have
      "fullText = concat (map (pageContribution d options) [1..<Suc (numPages d)])"
      by simp
    with t whole show ?thesis by (simp only:)
  qed
  have format: "pageSeparator N =
      [10, 10] @ js ''--- Page '' @ numberToString N @ js '' ---'' @ [10, 10]"
    by (simp add: pageSeparator_def)
  have rule: "appendPage fullText M anyText =
      fullText @ (if M > 1 \<and> trim anyText \<noteq> [] then pageSeparator M else []) @ anyText"
    and first: "appendPage fullText 1 anyText = fullText @ anyText"
    by (simp_all add: appendPage_def)
  from format rule first detailed progress show ?thesis
    by blast
qed

theorem page_separator_placement_witness:
  "fileToArrayBuffer brokenEnv exampleFile = Inr [] \<and>
   getDocument brokenEnv [] = Inr brokenDocument \<and>
   (1::nat) < 3 \<and> 3 \<le> numPages brokenDocument \<and>
   pageTextOf brokenDocument defaultOptions 3 = Inr (js ''C'') \<and>
   trim (js ''C'') \<noteq> [] \<and>
   trim (concat (map (pageContribution brokenDocument defaultOptions) [1..<3])) = js ''A'' \<and>
   (\<exists>r. extractDetailedTextFromPDF brokenEnv exampleFile defaultOptions = Inr r \<and>
      text r = js ''A'' @ pageSeparator 3 @ js ''C'') \<and>
   fileToArrayBuffer blankFirstEnv exampleFile = Inr [] \<and>
   getDocument blankFirstEnv [] = Inr blankFirstDocument \<and>
   (1::nat) < 2 \<and> 2 \<le> numPages blankFirstDocument \<and>
   pageTextOf blankFirstDocument defaultOptions 2 = Inr (js ''B'') \<and>
   trim (js ''B'') \<noteq> [] \<and>
   trim (concat (map (pageContribution blankFirstDocument defaultOptions) [1..<2])) = [] \<and>
   (\<exists>r. extractDetailedTextFromPDF blankFirstEnv exampleFile defaultOptions = Inr r \<and>
      text r = js ''--- Page 2 ---'' @ [10, 10] @ js ''B'') \<and>
   (\<exists>calls. extractTextWithProgress blankFirstEnv exampleFile (Some defaultOptions) =
      (calls, Inr (js ''--- Page 2 ---'' @ [10, 10] @ js ''B'')))"
proof -
  have a1: "fileToArrayBuffer brokenEnv exampleFile = Inr []"
    by (simp add: fileToArrayBuffer_def brokenEnv_def)
  have a2: "getDocument brokenEnv [] = Inr brokenDocument"
    by (simp add: brokenEnv_def)
  have a3: "(1::nat) < 3" "3 \<le> numPages brokenDocument"
    by (simp_all add: brokenDocument_def)
  have a4: "pageTextOf brokenDocument defaultOptions 3 = Inr (js ''C'')"
    by (simp add: brokenDocument_def textPage_def eval_defs)
  have a5: "trim (js ''C'') \<noteq> []"
    by (simp add: eval_defs)
  have a6: "concat (map (pageContribution brokenDocument defaultOptions) [1..<3]) = js ''A''"
    by (simp add: pageContribution_def brokenDocument_def textPage_def upt_rec eval_defs)
  have a7: "trim (js ''A'') = js ''A''" "trimStart (js ''A'') = js ''A''"
    by (simp_all add: eval_defs)
  have a8: "concat (map (pageContribution brokenDocument defaultOptions)
      [Suc 3..<Suc (numPages brokenDocument)]) = []"
    by (simp add: brokenDocument_def)
  have b1: "fileToArrayBuffer blankFirstEnv exampleFile = Inr []"
    by (simp add: fileToArrayBuffer_def blankFirstEnv_def)
  have b2: "getDocument blankFirstEnv [] = Inr blankFirstDocument"
    by (simp add: blankFirstEnv_def)
  have b3: "(1::nat) < 2" "2 \<le> numPages blankFirstDocument"
    by (simp_all add: blankFirstDocument_def)
  have b4: "pageTextOf blankFirstDocument defaultOptions 2 = Inr (js ''B'')"
    by (simp add: blankFirstDocument_def textPage_def eval_defs)
  have b5: "trim (js ''B'') \<noteq> []"
    by (simp add: eval_defs)
  have b6: "concat (map (pageContribution blankFirstDocument defaultOptions) [1..<2]) = []"
    by (simp add: pageContribution_def blankFirstDocument_def textPage_def upt_rec eval_defs)
  have b8: "concat (map (pageContribution blankFirstDocument defaultOptions)
      [Suc 2..<Suc (numPages blankFirstDocument)]) = []"
    by (simp add: blankFirstDocument_def)
  have b9: "numberToString 2 = js ''2''" "trim [] = []" "trimEnd [] = []"
    by (simp_all add: eval_defs)
  obtain calls t where
    b10: "extractTextWithProgress blankFirstEnv exampleFile (Some defaultOptions) = (calls, Inr t)"
    by (simp add: extractTextWithProgress_def blankFirstEnv_def blankFirstDocument_def
        exampleFile_def textPage_def progressLoop.simps eval_defs)
  from page_separator_placement [OF a1 a2 a3 a4 a5, where fullText = "[]" and M = 1 and anyText = "[]"]
  have first: "\<exists>r. extractDetailedTextFromPDF brokenEnv exampleFile defaultOptions = Inr r \<and>
      text r = js ''A'' @ pageSeparator 3 @ js ''C''"
    unfolding a6 a7 a8 by (auto simp: js_simps)
  from page_separator_placement [OF b1 b2 b3 b4 b5, where fullText = "[]" and M = 1 and anyText = "[]"]
  have second: "(\<exists>r. extractDetailedTextFromPDF blankFirstEnv exampleFile defaultOptions = Inr r \<and>
      text r = js ''--- Page 2 ---'' @ [10, 10] @ js ''B'') \<and>
    (\<forall>calls t. extractTextWithProgress blankFirstEnv exampleFile (Some defaultOptions) =
        (calls, Inr t) \<longrightarrow> t = js ''--- Page 2 ---'' @ [10, 10] @ js ''B'')"
    unfolding b6 b8 b9 by (auto simp: js_simps)
  with b10 have third: "\<exists>calls. extractTextWithProgress blankFirstEnv exampleFile
      (Some defaultOptions) = (calls, Inr (js ''--- Page 2 ---'' @ [10, 10] @ js ''B''))"
    by blast
  from first second third a1 a2 a3 a4 a5 a6 a7 b1 b2 b3 b4 b5 b6 b9 show ?thesis
    by (simp only: simp_thms)
qed

section \<open>Which fragments are skipped\<close>

lemma roundToDouble_12: "roundToDouble 12 = 12"
  by code_simp

lemma processItem_text:
  assumes "\<not> (\<forall>c \<in> set (str item). isWhiteSpace c)"
  shows "length text0 < length (fst (processItem options i item (text0, lastY, lastX)))"
proof -
  from assms have "trim (str item) \<noteq> []"
    by (simp add: trim_empty_iff)
  moreover from this have "str item \<noteq> []"
    by (auto simp: trim_def)
  ultimately show ?thesis
    by (auto simp: processItem_def Let_def processChars_append)
qed

text \<open>
  Claim C9, as stated: every fragment whose content is whitespace only is skipped.  The
  fragment that holds the one character U+0085 (next line) is whitespace only and is
  not skipped: after \<open>Hello\<close> on the same line it adds a space and the character to the
  text and moves \<open>lastX\<close> from 10 to 12, and the page text is not the \<open>Hello World\<close> that
  the page gives without it.
\<close>

theorem whitespace_fragment_counterexample:
  "isUnicodeWhiteSpace 133 \<and>
   processItem defaultOptions 1
     \<lparr>str = [133], transform4 = 11, transform5 = 100, width = Some 1\<rparr>
     (js ''Hello'', Some 100, Some 10) =
     (js ''Hello'' @ [32, 133], Some 100, Some 12) \<and>
   processTextContent (Some \<lparr>items = Some
      [\<lparr>str = js ''Hello'', transform4 = 0, transform5 = 100, width = Some 10\<rparr>,
       \<lparr>str = [133], transform4 = 11, transform5 = 100, width = Some 1\<rparr>,
       \<lparr>str = js ''World'', transform4 = 13, transform5 = 100, width = None\<rparr>]\<rparr>)
     defaultOptions =
   js ''Hello'' @ [32, 133, 32] @ js ''World''"
  by (simp add: isUnicodeWhiteSpace_def eval_defs roundToDouble_12)

text \<open>
  Claim C9, amended.  A fragment is skipped exactly when its content consists only of
  characters that \<open>trim\<close> strips (the white space and line terminators of the language;
  the empty content too): then and only then the state of the reconstructor, the text
  and \<open>lastY\<close> and \<open>lastX\<close>, is left as it was, for every setting of the options and every
  index; and the page text is then the same as without the fragment.
\<close>

theorem blank_fragment_skipped:
  "(processItem options i item (text0, lastY, lastX) = (text0, lastY, lastX)) =
     (\<forall>c \<in> set (str item). isWhiteSpace c) \<and>
   ((\<forall>c \<in> set (str item). isWhiteSpace c) \<longrightarrow>
      processTextContent (Some \<lparr>items = Some (before @ item # after)\<rparr>) options =
      processTextContent (Some \<lparr>items = Some (before @ after)\<rparr>) options)"
proof -
  have "processItem options i item (text0, lastY, lastX) \<noteq> (text0, lastY, lastX)"
    if "\<not> (\<forall>c \<in> set (str item). isWhiteSpace c)"
    using processItem_text [OF that, of text0 options i lastY lastX] by auto
  moreover have "processItem options i item (text0, lastY, lastX) = (text0, lastY, lastX)"
    if "\<forall>c \<in> set (str item). isWhiteSpace c"
    using that by (rule processItem_blank)
  moreover have "processTextContent (Some \<lparr>items = Some (before @ item # after)\<rparr>) options =
      processTextContent (Some \<lparr>items = Some (before @ after)\<rparr>) options"
    if "\<forall>c \<in> set (str item). isWhiteSpace c"
    using processItems_drop_blank [OF that, of None 0 0 options before after "[]" None]
    by (simp add: processTextContent_def)
  ultimately show ?thesis by blast
qed

theorem blank_fragment_skipped_witness:
  "str \<lparr>str = js ''  '', transform4 = 500, transform5 = 700, width = Some 8\<rparr> = [32, 32] \<and>
   isWhiteSpace 32 \<and>
   processItem defaultOptions 1 \<lparr>str = js ''  '', transform4 = 500, transform5 = 700, width = Some 8\<rparr>
     (js ''Hello'', Some 100, Some 10) = (js ''Hello'', Some 100, Some 10) \<and>
   processTextContent (Some \<lparr>items = Some
      [\<lparr>str = js ''Hello'', transform4 = 0, transform5 = 100, width = Some 10\<rparr>,
       \<lparr>str = js ''  '', transform4 = 500, transform5 = 700, width = Some 8\<rparr>,
       \<lparr>str = js ''World'', transform4 = 11, transform5 = 100, width = None\<rparr>]\<rparr>) defaultOptions =
   js ''Hello World''"
proof -
  let ?blank = "\<lparr>str = js ''  '', transform4 = 500, transform5 = 700, width = Some 8\<rparr>"
  let ?hello = "\<lparr>str = js ''Hello'', transform4 = 0, transform5 = 100, width = Some 10\<rparr>"
  let ?world = "\<lparr>str = js ''World'', transform4 = 11, transform5 = 100, width = None\<rparr>"
  have 1: "\<forall>c \<in> set (str ?blank). isWhiteSpace c"
    by (simp add: js_simps isWhiteSpace_def)
  have 2: "processTextContent (Some \<lparr>items = Some ([?hello] @ [?world])\<rparr>) defaultOptions =
      js ''Hello World''"
    by (simp add: eval_defs)
  show ?thesis
    using blank_fragment_skipped [of defaultOptions 1 ?blank "js ''Hello''" "Some 100" "Some 10"
        "[?hello]" "[?world]"] 1 2
    by (simp add: js_simps)
qed

end
